theory Spec2Isabelle
  imports Main
begin

unbundle bit_operations_syntax

section \<open>The large-object descriptor table of be-fsstubs.c\<close>

text \<open>
  A shallow embedding of \<^verbatim>\<open>src/backend/libpq/be-fsstubs.c\<close>. The two statics of the
  file, the array \<^verbatim>\<open>cookies\<close> and the pointer \<^verbatim>\<open>fscxt\<close>, are fields of a state
  record that every routine takes and returns. The routines of other files (the inversion
  store \<^verbatim>\<open>inv_*\<close>, the memory manager, the virtual file layer) are not part of this
  file: the calls made to them are appended, in order, to a trace, and what they return
  is read from an environment record whose functions see the trace so far, so a store
  or a file system with a state of its own is covered.
\<close>

subsection \<open>Constants and types\<close>

definition MAX_LOBJ_FDS :: nat where
  "MAX_LOBJ_FDS = 256"

definition BUFSIZE :: nat where
  "BUFSIZE = 1024"

definition FNAME_BUFSIZE :: nat where
  "FNAME_BUFSIZE = 8192"

text \<open>The contents of a \<^verbatim>\<open>char\<close> buffer, and a non-null \<^verbatim>\<open>MemoryContext\<close>.\<close>

type_synonym bytes = "char list"

type_synonym MemoryContext = nat

text \<open>An \<^verbatim>\<open>Oid\<close>; \<^verbatim>\<open>InvalidOid\<close> is the one value the file names.\<close>

datatype Oid = InvalidOid | ObjectId nat

text \<open>The two flag words the file passes to \<^verbatim>\<open>PathNameOpenFile\<close>:
  \<^verbatim>\<open>O_RDONLY | PG_BINARY\<close> and \<^verbatim>\<open>O_CREAT | O_WRONLY | O_TRUNC | PG_BINARY\<close>.\<close>

datatype open_flags = O_RDONLY | O_CREAT_WRONLY_TRUNC

text \<open>
  One constructor per routine of another file that be-fsstubs.c calls, with the
  arguments of the call and, last, what the call returned (when it returns a value).
  \<open>'d\<close> is the type of a non-null \<^verbatim>\<open>LargeObjectDesc *\<close>.
\<close>

datatype 'd event =
    Ev_AllocSetContextCreate MemoryContext
  | Ev_MemoryContextDelete MemoryContext
  | Ev_palloc int
  | Ev_inv_open Oid int "'d option"
  | Ev_inv_create int "'d option"
  | Ev_inv_close 'd
  | Ev_inv_read 'd int int
  | Ev_inv_write 'd bytes int int
  | Ev_inv_seek 'd int int int
  | Ev_inv_tell 'd int
  | Ev_inv_drop Oid int
  | Ev_inv_cleanindex 'd
  | Ev_umask nat nat
  | Ev_PathNameOpenFile string open_flags int
  | Ev_FileRead int nat int
  | Ev_FileWrite int bytes int int
  | Ev_FileClose int

text \<open>
  The environment: the header constants this file uses but does not define, and the
  answers of the routines of other files. Each answer may depend on the trace of the
  calls made so far. \<open>heap_relid\<close> is \<^verbatim>\<open>RelationGetRelid(lobjDesc->heap_r)\<close>.
  \<open>inv_read\<close> and \<open>FileRead\<close> return the count and the bytes they left in the buffer;
  nothing is assumed of them: a count may be short, zero or negative.
\<close>

record 'd env =
  VARHDRSZ :: nat
  INV_READ :: int
  INV_WRITE :: int
  ALLOW_DANGEROUS_LO_FUNCTIONS :: bool
  superuser :: "'d event list \<Rightarrow> bool"
  AllocSetContextCreate :: "'d event list \<Rightarrow> MemoryContext"
  inv_open :: "'d event list \<Rightarrow> Oid \<Rightarrow> int \<Rightarrow> 'd option"
  inv_create :: "'d event list \<Rightarrow> int \<Rightarrow> 'd option"
  inv_read :: "'d event list \<Rightarrow> 'd \<Rightarrow> int \<Rightarrow> int \<times> bytes"
  inv_write :: "'d event list \<Rightarrow> 'd \<Rightarrow> bytes \<Rightarrow> int \<Rightarrow> int"
  inv_seek :: "'d event list \<Rightarrow> 'd \<Rightarrow> int \<Rightarrow> int \<Rightarrow> int"
  inv_tell :: "'d event list \<Rightarrow> 'd \<Rightarrow> int"
  inv_drop :: "'d event list \<Rightarrow> Oid \<Rightarrow> int"
  heap_relid :: "'d \<Rightarrow> Oid"
  umask :: "'d event list \<Rightarrow> nat \<Rightarrow> nat"
  PathNameOpenFile :: "'d event list \<Rightarrow> string \<Rightarrow> open_flags \<Rightarrow> int"
  FileRead :: "'d event list \<Rightarrow> int \<Rightarrow> nat \<Rightarrow> int \<times> bytes"
  FileWrite :: "'d event list \<Rightarrow> int \<Rightarrow> bytes \<Rightarrow> int \<Rightarrow> int"

subsection \<open>The state\<close>

text \<open>
  \<^verbatim>\<open>static LargeObjectDesc *cookies[MAX_LOBJ_FDS]\<close> is a list of optional descriptors
  (\<open>None\<close> is \<^verbatim>\<open>NULL\<close>); \<^verbatim>\<open>static MemoryContext fscxt\<close> is an optional context.
  \<open>CurrentMemoryContext\<close> is the global of the memory manager that
  \<^verbatim>\<open>MemoryContextSwitchTo\<close> exchanges.
\<close>

record 'd sys =
  cookies :: "'d option list"
  fscxt :: "MemoryContext option"
  CurrentMemoryContext :: "MemoryContext option"
  trace :: "'d event list"

definition emit :: "'d event \<Rightarrow> 'd sys \<Rightarrow> 'd sys" where
  "emit e s = s\<lparr>trace := trace s @ [e]\<rparr>"

text \<open>Modelled from the spec: \<^verbatim>\<open>MemoryContextSwitchTo\<close> (the memory manager is not part of
  this file) makes its argument the active allocation context and returns the prior one.\<close>

definition MemoryContextSwitchTo :: "MemoryContext option \<Rightarrow> 'd sys \<Rightarrow> MemoryContext option \<times> 'd sys" where
  "MemoryContextSwitchTo c s = (CurrentMemoryContext s, s\<lparr>CurrentMemoryContext := c\<rparr>)"

text \<open>The state of a fresh backend: the statics are zero-initialised.\<close>

definition initial_sys :: "MemoryContext option \<Rightarrow> 'd sys" where
  "initial_sys cur =
     \<lparr>cookies = replicate MAX_LOBJ_FDS None, fscxt = None, CurrentMemoryContext = cur, trace = []\<rparr>"

subsection \<open>Support routines: newLOfd and deleteLOfd\<close>

text \<open>The \<^verbatim>\<open>for\<close> loop of \<^verbatim>\<open>newLOfd\<close>, from index \<open>i\<close> on.\<close>

function newLOfd_scan :: "nat \<Rightarrow> 'd \<Rightarrow> 'd option list \<Rightarrow> int \<times> 'd option list" where
  "newLOfd_scan i lobjCookie cs =
     (if i < MAX_LOBJ_FDS then
        (if cs ! i = None then (int i, cs[i := Some lobjCookie])
         else newLOfd_scan (Suc i) lobjCookie cs)
      else (- 1, cs))"
  by pat_completeness auto
termination
  by (relation "measure (\<lambda>(i, d, cs). MAX_LOBJ_FDS - i)") auto

declare newLOfd_scan.simps [simp del]

definition newLOfd :: "'d \<Rightarrow> 'd sys \<Rightarrow> int \<times> 'd sys" where
  "newLOfd lobjCookie s =
     (case newLOfd_scan 0 lobjCookie (cookies s) of (fd, cs) \<Rightarrow> (fd, s\<lparr>cookies := cs\<rparr>))"

text \<open>\<^verbatim>\<open>cookies[fd] = NULL\<close>; every caller has checked \<open>0 \<le> fd < MAX_LOBJ_FDS\<close>.\<close>

definition deleteLOfd :: "int \<Rightarrow> 'd sys \<Rightarrow> 'd sys" where
  "deleteLOfd fd s = s\<lparr>cookies := (cookies s)[nat fd := None]\<rparr>"

subsection \<open>Errors\<close>

text \<open>
  Modelled from the spec: \<^verbatim>\<open>elog(ERROR, ...)\<close> (the error reporting of the backend is not
  part of this file) abandons the routine that calls it: the operation fails with an
  error kind and nothing after the call runs. The model returns the error as \<open>Inl\<close>,
  with the state at the call. One constructor per message text of the file; the
  arguments are the name of the routine that reports it and the value printed.
\<close>

datatype elog_error =
    Out_of_range string int
  | Invalid_descriptor string int
  | Not_superuser string
  | Cant_open_unix_file string string
  | Cant_create_inv_object string
  | Cant_open_inv_object Oid
  | Error_while_reading string
  | Error_while_writing string

subsection \<open>File interfaces: lo_open and lo_close\<close>

text \<open>Lines 86-91 and 253-258: \<^verbatim>\<open>if (fscxt == NULL) fscxt = AllocSetContextCreate(...)\<close>.\<close>

definition ensure_fscxt :: "'d env \<Rightarrow> 'd sys \<Rightarrow> 'd sys" where
  "ensure_fscxt E s =
     (case fscxt s of
        None \<Rightarrow>
          (let c = AllocSetContextCreate E (trace s)
           in emit (Ev_AllocSetContextCreate c) (s\<lparr>fscxt := Some c\<rparr>))
      | Some c \<Rightarrow> s)"

text \<open>\<^verbatim>\<open>FSDB\<close> is not defined, so the \<^verbatim>\<open>elog(NOTICE, ...)\<close> calls are compiled out.\<close>

definition lo_open :: "'d env \<Rightarrow> Oid \<Rightarrow> int \<Rightarrow> 'd sys \<Rightarrow> int \<times> 'd sys" where
  "lo_open E lobjId mode s =
     (let s1 = ensure_fscxt E s;
          (currentContext, s2) = MemoryContextSwitchTo (fscxt s1) s1;
          lobjDesc = inv_open E (trace s2) lobjId mode;
          s3 = emit (Ev_inv_open lobjId mode lobjDesc) s2
      in case lobjDesc of
           None \<Rightarrow> (- 1, snd (MemoryContextSwitchTo currentContext s3))
         | Some d \<Rightarrow>
             (let (fd, s4) = newLOfd d s3;
                  s5 = snd (MemoryContextSwitchTo currentContext s4)
              in (fd, s5)))"

text \<open>\<^verbatim>\<open>Assert(fscxt != NULL)\<close> is compiled out unless assertion checking is enabled;
  \<open>Assert_fscxt_holds\<close> below shows that it cannot fail.\<close>

definition lo_close :: "int \<Rightarrow> 'd sys \<Rightarrow> (elog_error + int) \<times> 'd sys" where
  "lo_close fd s =
     (if fd < 0 \<or> fd \<ge> int MAX_LOBJ_FDS then (Inl (Out_of_range ''lo_close'' fd), s)
      else case cookies s ! nat fd of
        None \<Rightarrow> (Inl (Invalid_descriptor ''lo_close'' fd), s)
      | Some d \<Rightarrow>
          (let (currentContext, s1) = MemoryContextSwitchTo (fscxt s) s;
               s2 = emit (Ev_inv_close d) s1;
               s3 = snd (MemoryContextSwitchTo currentContext s2);
               s4 = deleteLOfd fd s3
           in (Inr 0, s4)))"

subsection \<open>Bare read and write, seek, create, tell, unlink\<close>

text \<open>\<^verbatim>\<open>lo_read\<close> returns the status and the bytes the store left in \<^verbatim>\<open>buf\<close>.\<close>

definition lo_read :: "'d env \<Rightarrow> int \<Rightarrow> int \<Rightarrow> 'd sys \<Rightarrow> (elog_error + int \<times> bytes) \<times> 'd sys" where
  "lo_read E fd len s =
     (if fd < 0 \<or> fd \<ge> int MAX_LOBJ_FDS then (Inl (Out_of_range ''lo_read'' fd), s)
      else case cookies s ! nat fd of
        None \<Rightarrow> (Inl (Invalid_descriptor ''lo_read'' fd), s)
      | Some d \<Rightarrow>
          (let (currentContext, s1) = MemoryContextSwitchTo (fscxt s) s;
               (status, buf) = inv_read E (trace s1) d len;
               s2 = emit (Ev_inv_read d len status) s1;
               s3 = snd (MemoryContextSwitchTo currentContext s2)
           in (Inr (status, buf), s3)))"

definition lo_write :: "'d env \<Rightarrow> int \<Rightarrow> bytes \<Rightarrow> int \<Rightarrow> 'd sys \<Rightarrow> (elog_error + int) \<times> 'd sys" where
  "lo_write E fd buf len s =
     (if fd < 0 \<or> fd \<ge> int MAX_LOBJ_FDS then (Inl (Out_of_range ''lo_write'' fd), s)
      else case cookies s ! nat fd of
        None \<Rightarrow> (Inl (Invalid_descriptor ''lo_write'' fd), s)
      | Some d \<Rightarrow>
          (let (currentContext, s1) = MemoryContextSwitchTo (fscxt s) s;
               status = inv_write E (trace s1) d buf len;
               s2 = emit (Ev_inv_write d buf len status) s1;
               s3 = snd (MemoryContextSwitchTo currentContext s2)
           in (Inr status, s3)))"

definition lo_lseek :: "'d env \<Rightarrow> int \<Rightarrow> int \<Rightarrow> int \<Rightarrow> 'd sys \<Rightarrow> (elog_error + int) \<times> 'd sys" where
  "lo_lseek E fd offset whence s =
     (if fd < 0 \<or> fd \<ge> int MAX_LOBJ_FDS then (Inl (Out_of_range ''lo_lseek'' fd), s)
      else case cookies s ! nat fd of
        None \<Rightarrow> (Inl (Invalid_descriptor ''lo_lseek'' fd), s)
      | Some d \<Rightarrow>
          (let (currentContext, s1) = MemoryContextSwitchTo (fscxt s) s;
               status = inv_seek E (trace s1) d offset whence;
               s2 = emit (Ev_inv_seek d offset whence status) s1;
               s3 = snd (MemoryContextSwitchTo currentContext s2)
           in (Inr status, s3)))"

definition lo_creat :: "'d env \<Rightarrow> int \<Rightarrow> 'd sys \<Rightarrow> Oid \<times> 'd sys" where
  "lo_creat E mode s =
     (let s1 = ensure_fscxt E s;
          (currentContext, s2) = MemoryContextSwitchTo (fscxt s1) s1;
          lobjDesc = inv_create E (trace s2) mode;
          s3 = emit (Ev_inv_create mode lobjDesc) s2
      in case lobjDesc of
           None \<Rightarrow> (InvalidOid, snd (MemoryContextSwitchTo currentContext s3))
         | Some d \<Rightarrow>
             (let lobjId = heap_relid E d;
                  s4 = emit (Ev_inv_close d) s3;
                  s5 = snd (MemoryContextSwitchTo currentContext s4)
              in (lobjId, s5)))"

definition lo_tell :: "'d env \<Rightarrow> int \<Rightarrow> 'd sys \<Rightarrow> (elog_error + int) \<times> 'd sys" where
  "lo_tell E fd s =
     (if fd < 0 \<or> fd \<ge> int MAX_LOBJ_FDS then (Inl (Out_of_range ''lo_tell'' fd), s)
      else case cookies s ! nat fd of
        None \<Rightarrow> (Inl (Invalid_descriptor ''lo_tell'' fd), s)
      | Some d \<Rightarrow>
          (let pos = inv_tell E (trace s) d
           in (Inr pos, emit (Ev_inv_tell d pos) s)))"

definition lo_unlink :: "'d env \<Rightarrow> Oid \<Rightarrow> 'd sys \<Rightarrow> int \<times> 'd sys" where
  "lo_unlink E lobjId s =
     (let r = inv_drop E (trace s) lobjId
      in (r, emit (Ev_inv_drop lobjId r) s))"

subsection \<open>Read and write using bytea\<close>

text \<open>A \<^verbatim>\<open>struct varlena\<close>: the size word and the data after it.\<close>

record varlena =
  vl_len :: int
  vl_dat :: bytes

text \<open>
  The sum \<^verbatim>\<open>VARHDRSZ + len\<close> is an \<^verbatim>\<open>int32\<close> sum in C and is the sum written here for
  every \<open>len\<close> up to \<^verbatim>\<open>INT_MAX - VARHDRSZ\<close>.
\<close>

definition loread :: "'d env \<Rightarrow> int \<Rightarrow> int \<Rightarrow> 'd sys \<Rightarrow> (elog_error + varlena) \<times> 'd sys" where
  "loread E fd len0 s =
     (let len = (if len0 < 0 then 0 else len0);
          s1 = emit (Ev_palloc (int (VARHDRSZ E) + len)) s;
          (r, s2) = lo_read E fd len s1
      in case r of
           Inl e \<Rightarrow> (Inl e, s2)
         | Inr (totalread, dat) \<Rightarrow>
             (Inr \<lparr>vl_len = totalread + int (VARHDRSZ E), vl_dat = dat\<rparr>, s2))"

text \<open>The argument \<^verbatim>\<open>wbuf\<close> is given by its data: \<^verbatim>\<open>VARSIZE(wbuf) - VARHDRSZ\<close> is their number.\<close>

definition lowrite :: "'d env \<Rightarrow> int \<Rightarrow> bytes \<Rightarrow> 'd sys \<Rightarrow> (elog_error + int) \<times> 'd sys" where
  "lowrite E fd wbuf s =
     (let bytestowrite = int (length wbuf)
      in lo_write E fd wbuf bytestowrite s)"

subsection \<open>Import and export\<close>

text \<open>
  Lines 384-388 and 463-467, the same in both routines: the number of data bytes of the
  \<^verbatim>\<open>text\<close> argument (\<^verbatim>\<open>VARSIZE(filename) - VARHDRSZ\<close>), cut to \<^verbatim>\<open>FNAME_BUFSIZE-1\<close>,
  and the \<^verbatim>\<open>memcpy\<close> of that many bytes into \<^verbatim>\<open>fnamebuf\<close>, which a NUL then ends. The
  argument is given by its data bytes; a \<^verbatim>\<open>text\<close> value holds no NUL byte, so the C
  string in \<^verbatim>\<open>fnamebuf\<close> is the bytes copied.
\<close>

definition fnamebuf_of :: "string \<Rightarrow> string" where
  "fnamebuf_of filename =
     (let nbytes0 = int (length filename);
          nbytes = (if nbytes0 \<ge> int FNAME_BUFSIZE then int FNAME_BUFSIZE - 1 else nbytes0)
      in take (nat nbytes) filename)"

text \<open>The privilege check, compiled in unless \<^verbatim>\<open>ALLOW_DANGEROUS_LO_FUNCTIONS\<close> is defined.\<close>

definition refused :: "'d env \<Rightarrow> 'd sys \<Rightarrow> bool" where
  "refused E s \<longleftrightarrow> \<not> ALLOW_DANGEROUS_LO_FUNCTIONS E \<and> \<not> superuser E (trace s)"

text \<open>
  The \<^verbatim>\<open>while\<close> loop of \<^verbatim>\<open>lo_import\<close> runs as long as \<^verbatim>\<open>FileRead\<close> returns a positive
  count, which nothing in this file bounds: the loop takes fuel, and \<open>None\<close> says that it
  had not ended when the fuel ran out. Whatever count \<^verbatim>\<open>FileRead\<close> returns is the length
  passed to \<^verbatim>\<open>inv_write\<close>; a count of zero or less ends the loop.
\<close>

fun import_loop :: "nat \<Rightarrow> 'd env \<Rightarrow> int \<Rightarrow> 'd \<Rightarrow> string \<Rightarrow> 'd sys \<Rightarrow> (elog_error + unit) option \<times> 'd sys" where
  "import_loop 0 E fd lobj fnamebuf s = (None, s)"
| "import_loop (Suc fuel) E fd lobj fnamebuf s =
     (let (nbytes, buf) = FileRead E (trace s) fd BUFSIZE;
          s1 = emit (Ev_FileRead fd BUFSIZE nbytes) s
      in if nbytes > 0 then
           (let tmp = inv_write E (trace s1) lobj buf nbytes;
                s2 = emit (Ev_inv_write lobj buf nbytes tmp) s1
            in if tmp < nbytes then (Some (Inl (Error_while_reading fnamebuf)), s2)
               else import_loop fuel E fd lobj fnamebuf s2)
         else (Some (Inr ()), s1))"

declare import_loop.simps [simp del]

definition lo_import :: "nat \<Rightarrow> 'd env \<Rightarrow> string \<Rightarrow> 'd sys \<Rightarrow> (elog_error + Oid) option \<times> 'd sys" where
  "lo_import fuel E filename s =
     (if refused E s then (Some (Inl (Not_superuser ''lo_import'')), s)
      else
        (let fnamebuf = fnamebuf_of filename;
             fd = PathNameOpenFile E (trace s) fnamebuf O_RDONLY;
             s1 = emit (Ev_PathNameOpenFile fnamebuf O_RDONLY fd) s
         in if fd < 0 then (Some (Inl (Cant_open_unix_file ''lo_import'' fnamebuf)), s1)
            else
              (let lobj = inv_create E (trace s1) (INV_READ E OR INV_WRITE E);
                   s2 = emit (Ev_inv_create (INV_READ E OR INV_WRITE E) lobj) s1
               in case lobj of
                    None \<Rightarrow> (Some (Inl (Cant_create_inv_object fnamebuf)), s2)
                  | Some d \<Rightarrow>
                      (let lobjOid = heap_relid E d
                       in case import_loop fuel E fd d fnamebuf s2 of
                            (None, s3) \<Rightarrow> (None, s3)
                          | (Some (Inl e), s3) \<Rightarrow> (Some (Inl e), s3)
                          | (Some (Inr u), s3) \<Rightarrow>
                              (let s4 = emit (Ev_FileClose fd) s3;
                                   s5 = emit (Ev_inv_close d) s4
                               in (Some (Inr lobjOid), s5))))))"

text \<open>
  The \<^verbatim>\<open>while\<close> loop of \<^verbatim>\<open>lo_export\<close> runs as long as the store returns a positive
  count, and takes fuel in the same way.
\<close>

fun export_loop :: "nat \<Rightarrow> 'd env \<Rightarrow> 'd \<Rightarrow> int \<Rightarrow> string \<Rightarrow> 'd sys \<Rightarrow> (elog_error + unit) option \<times> 'd sys" where
  "export_loop 0 E lobj fd fnamebuf s = (None, s)"
| "export_loop (Suc fuel) E lobj fd fnamebuf s =
     (let (nbytes, buf) = inv_read E (trace s) lobj (int BUFSIZE);
          s1 = emit (Ev_inv_read lobj (int BUFSIZE) nbytes) s
      in if nbytes > 0 then
           (let tmp = FileWrite E (trace s1) fd buf nbytes;
                s2 = emit (Ev_FileWrite fd buf nbytes tmp) s1
            in if tmp < nbytes then (Some (Inl (Error_while_writing fnamebuf)), s2)
               else export_loop fuel E lobj fd fnamebuf s2)
         else (Some (Inr ()), s1))"

text \<open>\<^verbatim>\<open>(mode_t) 0022\<close> is octal: 18.\<close>

definition lo_export :: "nat \<Rightarrow> 'd env \<Rightarrow> Oid \<Rightarrow> string \<Rightarrow> 'd sys \<Rightarrow> (elog_error + int) option \<times> 'd sys" where
  "lo_export fuel E lobjId filename s =
     (if refused E s then (Some (Inl (Not_superuser ''lo_export'')), s)
      else
        (let lobj = inv_open E (trace s) lobjId (INV_READ E);
             s1 = emit (Ev_inv_open lobjId (INV_READ E) lobj) s
         in case lobj of
              None \<Rightarrow> (Some (Inl (Cant_open_inv_object lobjId)), s1)
            | Some d \<Rightarrow>
                (let fnamebuf = fnamebuf_of filename;
                     oumask = umask E (trace s1) 18;
                     s2 = emit (Ev_umask 18 oumask) s1;
                     fd = PathNameOpenFile E (trace s2) fnamebuf O_CREAT_WRONLY_TRUNC;
                     s3 = emit (Ev_PathNameOpenFile fnamebuf O_CREAT_WRONLY_TRUNC fd) s2;
                     s4 = emit (Ev_umask oumask (umask E (trace s3) oumask)) s3
                 in if fd < 0 then (Some (Inl (Cant_open_unix_file ''lo_export'' fnamebuf)), s4)
                    else
                      (case export_loop fuel E d fd fnamebuf s4 of
                         (None, s5) \<Rightarrow> (None, s5)
                       | (Some (Inl e), s5) \<Rightarrow> (Some (Inl e), s5)
                       | (Some (Inr u), s5) \<Rightarrow>
                           (let s6 = emit (Ev_inv_close d) s5;
                                s7 = emit (Ev_FileClose fd) s6
                            in (Some (Inr 1), s7))))))"

subsection \<open>The end of a transaction: lo_commit\<close>

text \<open>The \<^verbatim>\<open>for\<close> loop of \<^verbatim>\<open>lo_commit\<close>, from index \<open>i\<close> on.\<close>

function lo_commit_loop :: "bool \<Rightarrow> nat \<Rightarrow> 'd sys \<Rightarrow> 'd sys" where
  "lo_commit_loop isCommit i s =
     (if i < MAX_LOBJ_FDS then
        (case cookies s ! i of
           Some d \<Rightarrow>
             (let s1 = (if isCommit then emit (Ev_inv_cleanindex d) s else s);
                  s2 = s1\<lparr>cookies := (cookies s1)[i := None]\<rparr>
              in lo_commit_loop isCommit (Suc i) s2)
         | None \<Rightarrow> lo_commit_loop isCommit (Suc i) s)
      else s)"
  by pat_completeness auto
termination
  by (relation "measure (\<lambda>(isCommit, i, s). MAX_LOBJ_FDS - i)") auto

declare lo_commit_loop.simps [simp del]

definition lo_commit :: "bool \<Rightarrow> 'd sys \<Rightarrow> 'd sys" where
  "lo_commit isCommit s =
     (case fscxt s of
        None \<Rightarrow> s
      | Some c \<Rightarrow>
          (let (currentContext, s1) = MemoryContextSwitchTo (fscxt s) s;
               s2 = lo_commit_loop isCommit 0 s1;
               s3 = snd (MemoryContextSwitchTo currentContext s2);
               s4 = emit (Ev_MemoryContextDelete c) s3
           in s4\<lparr>fscxt := None\<rparr>))"

subsection \<open>Invariant, projections of the trace\<close>

text \<open>
  What holds of the two statics between calls: the array has its declared size, and no
  slot is occupied while \<^verbatim>\<open>fscxt\<close> is \<^verbatim>\<open>NULL\<close>.
\<close>

definition lo_invariant :: "'d sys \<Rightarrow> bool" where
  "lo_invariant s \<longleftrightarrow>
     length (cookies s) = MAX_LOBJ_FDS \<and>
     (fscxt s = None \<longrightarrow> cookies s = replicate MAX_LOBJ_FDS None)"

text \<open>The descriptors of the occupied slots, in index order, one for each such slot.\<close>

primrec occupied :: "'d option list \<Rightarrow> 'd list" where
  "occupied [] = []"
| "occupied (c # cs) = (case c of None \<Rightarrow> occupied cs | Some d \<Rightarrow> d # occupied cs)"

text \<open>The \<^verbatim>\<open>inv_write\<close> calls of a trace, in order: the buffer, the length asked for and
  the length the store returned.\<close>

fun inv_writes :: "'d event list \<Rightarrow> (bytes \<times> int \<times> int) list" where
  "inv_writes [] = []"
| "inv_writes (Ev_inv_write d buf n tmp # es) = (buf, n, tmp) # inv_writes es"
| "inv_writes (e # es) = inv_writes es"

text \<open>
  The copy of an import in the spec's words: the file is cut into chunks of \<open>n\<close> bytes
  until end-of-file, and a final partial chunk carries the remainder.
\<close>

function spec_chunks :: "nat \<Rightarrow> 'a list \<Rightarrow> 'a list list" where
  "spec_chunks n xs = (if n = 0 \<or> xs = [] then [] else take n xs # spec_chunks n (drop n xs))"
  by pat_completeness auto
termination
  by (relation "measure (\<lambda>(n, xs). length xs)") auto

declare spec_chunks.simps [simp del]

text \<open>The number of bytes that the \<^verbatim>\<open>FileRead\<close> calls of a trace on \<open>fd\<close> have delivered.\<close>

fun file_pos :: "int \<Rightarrow> 'd event list \<Rightarrow> nat" where
  "file_pos fd [] = 0"
| "file_pos fd (Ev_FileRead fd' amount n # es) = (if fd' = fd then nat n else 0) + file_pos fd es"
| "file_pos fd (e # es) = file_pos fd es"


text \<open>
  What is shown, for every file layer and store, of the \<^verbatim>\<open>inv_write\<close> calls \<open>ws\<close> that the
  copy loop of an import makes and of its result \<open>res\<close>: every call hands over the
  count and the buffer that a \<^verbatim>\<open>FileRead\<close> returned, the count being positive, and logs
  the answer of the store; every call but the last is answered in full; the loop has
  failed with the copy error when an answer is short, and has succeeded only when none
  is.
\<close>

definition copy_log ::
  "'d env \<Rightarrow> 'd \<Rightarrow> int \<Rightarrow> string \<Rightarrow> (bytes \<times> int \<times> int) list \<Rightarrow> (elog_error + unit) option \<Rightarrow> bool" where
  "copy_log E d fd fn ws res \<longleftrightarrow>
     (\<forall>w\<in>set ws. 0 < fst (snd w) \<and> (\<exists>tr. FileRead E tr fd BUFSIZE = (fst (snd w), fst w)))
   \<and> (\<forall>w\<in>set ws. \<exists>tr. snd (snd w) = inv_write E tr d (fst w) (fst (snd w)))
   \<and> (\<forall>w\<in>set (butlast ws). fst (snd w) \<le> snd (snd w))
   \<and> ((\<exists>w\<in>set ws. snd (snd w) < fst (snd w)) \<longrightarrow> res = Some (Inl (Error_while_reading fn)))
   \<and> (res = Some (Inr ()) \<longrightarrow> (\<forall>w\<in>set ws. fst (snd w) \<le> snd (snd w)))"


subsection \<open>Example environments and states\<close>

text \<open>
  A store and a file system that accept every call: a new descriptor is numbered by the
  length of the trace at the call, every write is complete, every file that is read
  holds 5000 bytes and is delivered in full reads.
\<close>

definition demo_env :: "nat env" where
  "demo_env =
     \<lparr>VARHDRSZ = 4, INV_READ = 262144, INV_WRITE = 131072,
      ALLOW_DANGEROUS_LO_FUNCTIONS = False,
      superuser = (\<lambda>tr. True),
      AllocSetContextCreate = (\<lambda>tr. 1),
      inv_open = (\<lambda>tr lobjId mode. Some (length tr)),
      inv_create = (\<lambda>tr mode. Some (length tr)),
      inv_read = (\<lambda>tr d len. (0, [])),
      inv_write = (\<lambda>tr d buf len. len),
      inv_seek = (\<lambda>tr d offset whence. offset),
      inv_tell = (\<lambda>tr d. 0),
      inv_drop = (\<lambda>tr lobjId. 1),
      heap_relid = ObjectId,
      umask = (\<lambda>tr m. 63),
      PathNameOpenFile = (\<lambda>tr name flags. 3),
      FileRead = (\<lambda>tr fd amount.
        let c = take amount (drop (file_pos fd tr) (replicate 5000 (CHR ''x'')))
        in (int (length c), c)),
      FileWrite = (\<lambda>tr fd buf n. n)\<rparr>"

text \<open>The same, with a store that opens no object.\<close>

definition rejecting_env :: "nat env" where
  "rejecting_env = demo_env\<lparr>inv_open := (\<lambda>tr lobjId mode. None)\<rparr>"



text \<open>The same, with a file layer whose second read of a file fails.\<close>

definition read_error_env :: "nat env" where
  "read_error_env =
     demo_env\<lparr>FileRead := (\<lambda>tr fd amount.
        if file_pos fd tr = 0 then (int amount, replicate amount (CHR ''x'')) else (- 1, []))\<rparr>"

text \<open>A transaction with two open descriptors, in slots 0 and 1.\<close>

definition demo_sys :: "nat sys" where
  "demo_sys =
     \<lparr>cookies = Some 10 # Some 11 # replicate 254 None, fscxt = Some 1,
      CurrentMemoryContext = Some 0, trace = []\<rparr>"

text \<open>A transaction that has filled the table: slot \<open>i\<close> holds descriptor \<open>i\<close>.\<close>

definition full_sys :: "nat sys" where
  "full_sys =
     \<lparr>cookies = map Some [0..<256], fscxt = Some 1,
      CurrentMemoryContext = Some 0, trace = []\<rparr>"

text \<open>Between transactions: no arena and an empty table.\<close>

definition idle_sys :: "nat sys" where
  "idle_sys = initial_sys (Some 0)"

text \<open>A path of 9000 bytes.\<close>

definition long_name :: string where
  "long_name = replicate 9000 (CHR ''a'')"

section \<open>Properties\<close>

subsection \<open>The handle table\<close>

lemma emit_fields [simp]:
  "cookies (emit e s) = cookies s" "fscxt (emit e s) = fscxt s"
  "CurrentMemoryContext (emit e s) = CurrentMemoryContext s" "trace (emit e s) = trace s @ [e]"
  by (simp_all add: emit_def)

lemma newLOfd_scan_first:
  "i \<le> k \<Longrightarrow> k < MAX_LOBJ_FDS \<Longrightarrow> cs ! k = None \<Longrightarrow> (\<forall>j. i \<le> j \<and> j < k \<longrightarrow> cs ! j \<noteq> None)
    \<Longrightarrow> newLOfd_scan i d cs = (int k, cs[k := Some d])"
proof (induction i d cs rule: newLOfd_scan.induct)
  case (1 i lobjCookie cs)
  show ?case
  proof (cases "i = k")
    case True
    with "1.prems" show ?thesis by (simp add: newLOfd_scan.simps)
  next
    case False
    with "1.prems" have lt: "i < k" and occ: "cs ! i \<noteq> None" by auto
    from lt "1.prems" have "i < MAX_LOBJ_FDS" by simp
    moreover have "newLOfd_scan (Suc i) lobjCookie cs = (int k, cs[k := Some lobjCookie])"
      using "1.IH" [OF \<open>i < MAX_LOBJ_FDS\<close> occ] lt "1.prems" by auto
    ultimately show ?thesis using occ by (auto simp: newLOfd_scan.simps [of i])
  qed
qed

lemma newLOfd_scan_full:
  "(\<forall>j. i \<le> j \<and> j < MAX_LOBJ_FDS \<longrightarrow> cs ! j \<noteq> None) \<Longrightarrow> newLOfd_scan i d cs = (- 1, cs)"
proof (induction i d cs rule: newLOfd_scan.induct)
  case (1 i lobjCookie cs)
  show ?case
  proof (cases "i < MAX_LOBJ_FDS")
    case True
    with "1.prems" have occ: "cs ! i \<noteq> None" by auto
    have "newLOfd_scan (Suc i) lobjCookie cs = (- 1, cs)"
      using "1.IH" [OF True occ] "1.prems" by auto
    with True occ show ?thesis by (auto simp: newLOfd_scan.simps [of i])
  next
    case False
    then show ?thesis by (simp add: newLOfd_scan.simps [of i])
  qed
qed

lemma first_empty_slot:
  assumes "None \<in> set cs"
  obtains k where "k < length cs" "cs ! k = None" "\<forall>j<k. cs ! j \<noteq> None"
proof -
  define k where "k = (LEAST n. n < length cs \<and> cs ! n = None)"
  from assms obtain n where n: "n < length cs \<and> cs ! n = None"
    by (auto simp: in_set_conv_nth)
  then have "k < length cs \<and> cs ! k = None" unfolding k_def by (rule LeastI)
  moreover have "\<forall>j<k. cs ! j \<noteq> None"
  proof (intro allI impI notI)
    fix j assume "j < k" "cs ! j = None"
    moreover from \<open>j < k\<close> \<open>k < length cs \<and> cs ! k = None\<close> have "j < length cs" by simp
    ultimately show False using not_less_Least [of j "\<lambda>n. n < length cs \<and> cs ! n = None"]
      unfolding k_def by simp
  qed
  ultimately show ?thesis using that by blast
qed

lemma newLOfd_first_empty:
  assumes len: "length (cookies s) = MAX_LOBJ_FDS"
    and k: "k < MAX_LOBJ_FDS" "cookies s ! k = None" "\<forall>j<k. cookies s ! j \<noteq> None"
  shows "newLOfd d s = (int k, s\<lparr>cookies := (cookies s)[k := Some d]\<rparr>)"
  using newLOfd_scan_first [of 0 k "cookies s" d] k by (simp add: newLOfd_def)

lemma newLOfd_exhausted:
  assumes len: "length (cookies s) = MAX_LOBJ_FDS" and full: "None \<notin> set (cookies s)"
  shows "newLOfd d s = (- 1, s)"
proof -
  have "\<forall>j. 0 \<le> j \<and> j < MAX_LOBJ_FDS \<longrightarrow> cookies s ! j \<noteq> None"
    using len full by (metis nth_mem)
  then show ?thesis using newLOfd_scan_full [of 0 "cookies s" d] by (simp add: newLOfd_def)
qed

text \<open>
  C5: in a table with an empty slot, \<open>newLOfd\<close> stores the descriptor in the empty slot
  of lowest index and returns that index. In a table with all 256 slots occupied it
  returns the failure value -1 and leaves the table as it is; once any one slot \<open>k\<close> has
  been freed by \<open>deleteLOfd\<close>, the next allocation succeeds and returns \<open>k\<close>, and the one
  after it fails again.
\<close>

theorem newLOfd_first_fit:
  assumes len: "length (cookies s) = MAX_LOBJ_FDS"
  shows "(None \<in> set (cookies s) \<longrightarrow>
            (\<exists>i<MAX_LOBJ_FDS. cookies s ! i = None \<and> (\<forall>j<i. cookies s ! j \<noteq> None) \<and>
               newLOfd d s = (int i, s\<lparr>cookies := (cookies s)[i := Some d]\<rparr>)))
       \<and> (None \<notin> set (cookies s) \<longrightarrow>
            newLOfd d s = (- 1, s) \<and>
            (\<forall>k<MAX_LOBJ_FDS.
               newLOfd d (deleteLOfd (int k) s) = (int k, s\<lparr>cookies := (cookies s)[k := Some d]\<rparr>) \<and>
               fst (newLOfd d' (snd (newLOfd d (deleteLOfd (int k) s)))) = - 1))"
proof (intro conjI impI)
  assume "None \<in> set (cookies s)"
  then obtain k where k: "k < length (cookies s)" "cookies s ! k = None" "\<forall>j<k. cookies s ! j \<noteq> None"
    by (rule first_empty_slot)
  with len have "newLOfd d s = (int k, s\<lparr>cookies := (cookies s)[k := Some d]\<rparr>)"
    by (intro newLOfd_first_empty) simp_all
  with k len show "\<exists>i<MAX_LOBJ_FDS. cookies s ! i = None \<and> (\<forall>j<i. cookies s ! j \<noteq> None) \<and>
               newLOfd d s = (int i, s\<lparr>cookies := (cookies s)[i := Some d]\<rparr>)"
    by auto
next
  assume full: "None \<notin> set (cookies s)"
  with len show "newLOfd d s = (- 1, s)" by (rule newLOfd_exhausted)
  show "\<forall>k<MAX_LOBJ_FDS.
               newLOfd d (deleteLOfd (int k) s) = (int k, s\<lparr>cookies := (cookies s)[k := Some d]\<rparr>) \<and>
               fst (newLOfd d' (snd (newLOfd d (deleteLOfd (int k) s)))) = - 1"
  proof (intro allI impI)
    fix k assume k: "k < MAX_LOBJ_FDS"
    let ?s1 = "deleteLOfd (int k) s"
    have c1: "cookies ?s1 = (cookies s)[k := None]" by (simp add: deleteLOfd_def)
    have occ: "\<forall>j<MAX_LOBJ_FDS. cookies s ! j \<noteq> None" using full len by (metis nth_mem)
    have "newLOfd d ?s1 = (int k, ?s1\<lparr>cookies := (cookies ?s1)[k := Some d]\<rparr>)"
    proof (rule newLOfd_first_empty)
      show "length (cookies ?s1) = MAX_LOBJ_FDS" using len c1 by simp
      show "k < MAX_LOBJ_FDS" by (rule k)
      show "cookies ?s1 ! k = None" using c1 k len by simp
      show "\<forall>j<k. cookies ?s1 ! j \<noteq> None" using c1 k occ by simp
    qed
    then have a: "newLOfd d ?s1 = (int k, s\<lparr>cookies := (cookies s)[k := Some d]\<rparr>)"
      by (simp add: deleteLOfd_def)
    have "None \<notin> set ((cookies s)[k := Some d])"
    proof
      assume "None \<in> set ((cookies s)[k := Some d])"
      then obtain j where "j < length (cookies s)" "(cookies s)[k := Some d] ! j = None"
        by (auto simp: in_set_conv_nth)
      then show False using occ len by (cases "j = k") auto
    qed
    then have "newLOfd d' (s\<lparr>cookies := (cookies s)[k := Some d]\<rparr>) = (- 1, s\<lparr>cookies := (cookies s)[k := Some d]\<rparr>)"
      using len by (intro newLOfd_exhausted) simp_all
    with a show "newLOfd d (deleteLOfd (int k) s) = (int k, s\<lparr>cookies := (cookies s)[k := Some d]\<rparr>) \<and>
               fst (newLOfd d' (snd (newLOfd d (deleteLOfd (int k) s)))) = - 1" by simp
  qed
qed

theorem newLOfd_first_fit_witness:
  "newLOfd 12 demo_sys = (2, demo_sys\<lparr>cookies := (cookies demo_sys)[2 := Some 12]\<rparr>)
   \<and> newLOfd 300 full_sys = (- 1, full_sys)
   \<and> newLOfd 300 (deleteLOfd 7 full_sys) = (7, full_sys\<lparr>cookies := (cookies full_sys)[7 := Some 300]\<rparr>)
   \<and> fst (newLOfd 301 (snd (newLOfd 300 (deleteLOfd 7 full_sys)))) = - 1"
proof -
  have len1: "length (cookies demo_sys) = MAX_LOBJ_FDS"
    by (simp add: demo_sys_def MAX_LOBJ_FDS_def)
  have emp: "None \<in> set (cookies demo_sys)" by (simp add: demo_sys_def)
  from newLOfd_first_fit [OF len1, of 12] emp
  obtain i where i: "cookies demo_sys ! i = None" "\<forall>j<i. cookies demo_sys ! j \<noteq> None"
    "newLOfd 12 demo_sys = (int i, demo_sys\<lparr>cookies := (cookies demo_sys)[i := Some 12]\<rparr>)"
    by blast
  have "i = 2"
  proof (rule ccontr)
    assume "i \<noteq> 2"
    then consider "i = 0" | "i = 1" | "2 < i" by linarith
    then show False
    proof cases
      case 1 with i(1) show False by (simp add: demo_sys_def)
    next
      case 2 with i(1) show False by (simp add: demo_sys_def)
    next
      case 3
      with i(2) have "cookies demo_sys ! 2 \<noteq> None" by blast
      then show False by (simp add: demo_sys_def)
    qed
  qed
  with i(3) have a: "newLOfd 12 demo_sys = (2, demo_sys\<lparr>cookies := (cookies demo_sys)[2 := Some 12]\<rparr>)"
    by simp
  have len2: "length (cookies full_sys) = MAX_LOBJ_FDS"
    by (simp add: full_sys_def MAX_LOBJ_FDS_def)
  have full: "None \<notin> set (cookies full_sys)" by (auto simp: full_sys_def)
  have k: "(7::nat) < MAX_LOBJ_FDS" by (simp add: MAX_LOBJ_FDS_def)
  from newLOfd_first_fit [OF len2, of 300 301] full k
  have "newLOfd 300 full_sys = (- 1, full_sys)
    \<and> newLOfd 300 (deleteLOfd (int 7) full_sys) = (int 7, full_sys\<lparr>cookies := (cookies full_sys)[7 := Some 300]\<rparr>)
    \<and> fst (newLOfd 301 (snd (newLOfd 300 (deleteLOfd (int 7) full_sys)))) = - 1"
    by blast
  then have "newLOfd 300 full_sys = (- 1, full_sys)
    \<and> newLOfd 300 (deleteLOfd 7 full_sys) = (7, full_sys\<lparr>cookies := (cookies full_sys)[7 := Some 300]\<rparr>)
    \<and> fst (newLOfd 301 (snd (newLOfd 300 (deleteLOfd 7 full_sys)))) = - 1"
    unfolding of_nat_numeral .
  with a show ?thesis by blast
qed

subsection \<open>The end of a transaction\<close>

lemma occupied_append: "occupied (xs @ ys) = occupied xs @ occupied ys"
  by (induction xs) (auto split: option.splits)

lemma occupied_replicate_None [simp]: "occupied (replicate n None) = []"
  by (induction n) auto

lemma lo_commit_loop_done: "\<not> i < MAX_LOBJ_FDS \<Longrightarrow> lo_commit_loop b i s = s"
  by (subst lo_commit_loop.simps) simp

lemma lo_commit_loop_None:
  "i < MAX_LOBJ_FDS \<Longrightarrow> cookies s ! i = None \<Longrightarrow> lo_commit_loop b i s = lo_commit_loop b (Suc i) s"
  by (subst lo_commit_loop.simps) simp

lemma lo_commit_loop_Some:
  "i < MAX_LOBJ_FDS \<Longrightarrow> cookies s ! i = Some d \<Longrightarrow>
   lo_commit_loop b i s =
     lo_commit_loop b (Suc i)
       ((if b then emit (Ev_inv_cleanindex d) s else s)\<lparr>cookies := (cookies s)[i := None]\<rparr>)"
  by (subst lo_commit_loop.simps) (simp add: Let_def)

lemma lo_commit_loop_eq:
  "i \<le> MAX_LOBJ_FDS \<Longrightarrow> length (cookies s) = MAX_LOBJ_FDS \<Longrightarrow>
   lo_commit_loop isCommit i s =
     s\<lparr>cookies := take i (cookies s) @ replicate (MAX_LOBJ_FDS - i) None,
       trace := trace s @ (if isCommit then map Ev_inv_cleanindex (occupied (drop i (cookies s))) else [])\<rparr>"
proof (induction isCommit i s rule: lo_commit_loop.induct)
  case (1 isCommit i s)
  show ?case
  proof (cases "i < MAX_LOBJ_FDS")
    case False
    then have "lo_commit_loop isCommit i s = s" by (rule lo_commit_loop_done)
    moreover from False "1.prems" have "i = MAX_LOBJ_FDS" by simp
    ultimately show ?thesis using "1.prems" by simp
  next
    case True
    with "1.prems" have ilen: "i < length (cookies s)" by simp
    have dr: "drop i (cookies s) = cookies s ! i # drop (Suc i) (cookies s)"
      using ilen by (simp add: Cons_nth_drop_Suc)
    have rp: "replicate (MAX_LOBJ_FDS - i) (None :: 'a option) = None # replicate (MAX_LOBJ_FDS - Suc i) None"
      using True by (cases "MAX_LOBJ_FDS - i") (auto simp: Suc_diff_Suc)
    show ?thesis
    proof (cases "cookies s ! i")
      case None
      have tk: "take (Suc i) (cookies s) = take i (cookies s) @ [None]"
        using ilen None by (simp add: take_Suc_conv_app_nth)
      have "lo_commit_loop isCommit i s = lo_commit_loop isCommit (Suc i) s"
        using True None by (rule lo_commit_loop_None)
      also have "\<dots> = s\<lparr>cookies := take (Suc i) (cookies s) @ replicate (MAX_LOBJ_FDS - Suc i) None,
           trace := trace s @ (if isCommit then map Ev_inv_cleanindex (occupied (drop (Suc i) (cookies s))) else [])\<rparr>"
        using "1.IH"(1) [OF True None] True "1.prems" by simp
      finally show ?thesis using None by (simp add: dr rp tk)
    next
      case (Some d)
      define s1 where "s1 = (if isCommit then emit (Ev_inv_cleanindex d) s else s)"
      define s2 where "s2 = s1\<lparr>cookies := (cookies s1)[i := None]\<rparr>"
      have c2: "cookies s2 = (cookies s)[i := None]" by (simp add: s2_def s1_def)
      have t2: "trace s2 = trace s @ (if isCommit then [Ev_inv_cleanindex d] else [])"
        by (simp add: s2_def s1_def)
      have tk: "take (Suc i) ((cookies s)[i := None]) = take i (cookies s) @ [None]"
        using ilen by (simp add: take_Suc_conv_app_nth)
      have "lo_commit_loop isCommit i s = lo_commit_loop isCommit (Suc i) s2"
        using lo_commit_loop_Some [OF True Some] by (simp add: s1_def s2_def)
      also have "\<dots> = s2\<lparr>cookies := take (Suc i) (cookies s2) @ replicate (MAX_LOBJ_FDS - Suc i) None,
           trace := trace s2 @ (if isCommit then map Ev_inv_cleanindex (occupied (drop (Suc i) (cookies s2))) else [])\<rparr>"
        using "1.IH"(2) [OF True Some s1_def s2_def] True "1.prems" c2 by simp
      also have "\<dots> = s\<lparr>cookies := take i (cookies s) @ replicate (MAX_LOBJ_FDS - i) None,
           trace := trace s @ (if isCommit then map Ev_inv_cleanindex (occupied (drop i (cookies s))) else [])\<rparr>"
        unfolding c2 t2 tk by (simp add: dr rp Some s2_def s1_def emit_def)
      finally show ?thesis .
    qed
  qed
qed

lemma lo_commit_active:
  assumes len: "length (cookies s) = MAX_LOBJ_FDS" and act: "fscxt s = Some c"
  shows "lo_commit isCommit s =
     s\<lparr>cookies := replicate MAX_LOBJ_FDS None, fscxt := None,
       trace := trace s @ (if isCommit then map Ev_inv_cleanindex (occupied (cookies s)) else [])
                  @ [Ev_MemoryContextDelete c]\<rparr>"
  using len act
  by (simp add: lo_commit_def MemoryContextSwitchTo_def lo_commit_loop_eq emit_def)

lemma ensure_fscxt_fields [simp]:
  "cookies (ensure_fscxt E s) = cookies s"
  "CurrentMemoryContext (ensure_fscxt E s) = CurrentMemoryContext s"
  "fscxt (ensure_fscxt E s) = Some (case fscxt s of None \<Rightarrow> AllocSetContextCreate E (trace s) | Some c \<Rightarrow> c)"
  "trace (ensure_fscxt E s) = trace s @ (case fscxt s of None \<Rightarrow> [Ev_AllocSetContextCreate (AllocSetContextCreate E (trace s))] | Some c \<Rightarrow> [])"
  by (simp_all add: ensure_fscxt_def Let_def split: option.splits)

lemma lo_open_eq:
  "lo_open E lobjId mode s =
     (let s1 = ensure_fscxt E s;
          r = inv_open E (trace s1) lobjId mode;
          s3 = emit (Ev_inv_open lobjId mode r) s1
      in case r of None \<Rightarrow> (- 1, s3) | Some d \<Rightarrow> newLOfd d s3)"
  by (simp add: lo_open_def Let_def MemoryContextSwitchTo_def newLOfd_def emit_def
      split: option.splits prod.splits)

lemma lo_creat_eq:
  "lo_creat E mode s =
     (let s1 = ensure_fscxt E s;
          r = inv_create E (trace s1) mode;
          s3 = emit (Ev_inv_create mode r) s1
      in case r of None \<Rightarrow> (InvalidOid, s3) | Some d \<Rightarrow> (heap_relid E d, emit (Ev_inv_close d) s3))"
  by (simp add: lo_creat_def Let_def MemoryContextSwitchTo_def emit_def
      split: option.splits prod.splits)

lemma lo_close_eq:
  "lo_close fd s =
     (if fd < 0 \<or> fd \<ge> int MAX_LOBJ_FDS then (Inl (Out_of_range ''lo_close'' fd), s)
      else case cookies s ! nat fd of
        None \<Rightarrow> (Inl (Invalid_descriptor ''lo_close'' fd), s)
      | Some d \<Rightarrow> (Inr 0, deleteLOfd fd (emit (Ev_inv_close d) s)))"
  by (simp add: lo_close_def Let_def MemoryContextSwitchTo_def emit_def deleteLOfd_def
      split: option.splits prod.splits)

lemma set_occupied: "set (occupied cs) = {d. Some d \<in> set cs}"
  by (induction cs) (auto split: option.splits)

lemma length_occupied: "length (occupied cs) = length (filter (\<lambda>c. c \<noteq> None) cs)"
  by (induction cs) (auto split: option.splits)

text \<open>
  C2: when \<open>lo_commit\<close> runs while the arena is present, the calls it makes are one
  \<^verbatim>\<open>inv_cleanindex\<close> for the descriptor of every occupied slot, in index order, when the
  flag is commit, and none when the flag is abort, followed in both cases by the
  \<^verbatim>\<open>MemoryContextDelete\<close> of the arena; every slot is empty afterwards and \<^verbatim>\<open>fscxt\<close> is
  \<^verbatim>\<open>NULL\<close>.
\<close>

theorem lo_commit_cleanindex_only_on_commit:
  assumes len: "length (cookies s) = MAX_LOBJ_FDS" and act: "fscxt s = Some c"
  shows "trace (lo_commit isCommit s) =
           trace s @ (if isCommit then map Ev_inv_cleanindex (occupied (cookies s)) else [])
             @ [Ev_MemoryContextDelete c]
       \<and> cookies (lo_commit isCommit s) = replicate MAX_LOBJ_FDS None
       \<and> fscxt (lo_commit isCommit s) = None"
  by (simp add: lo_commit_active [OF len act])

theorem lo_commit_cleanindex_only_on_commit_witness:
  "trace (lo_commit True demo_sys) = [Ev_inv_cleanindex 10, Ev_inv_cleanindex 11, Ev_MemoryContextDelete 1]
   \<and> trace (lo_commit False demo_sys) = [Ev_MemoryContextDelete 1]
   \<and> cookies (lo_commit True demo_sys) = replicate 256 None
   \<and> cookies (lo_commit False demo_sys) = replicate 256 None
   \<and> fscxt (lo_commit True demo_sys) = None
   \<and> fscxt (lo_commit False demo_sys) = None"
proof -
  have len: "length (cookies demo_sys) = MAX_LOBJ_FDS"
    by (simp add: demo_sys_def MAX_LOBJ_FDS_def)
  have act: "fscxt demo_sys = Some 1" by (simp add: demo_sys_def)
  have occ: "occupied (cookies demo_sys) = [10, 11]" by (simp add: demo_sys_def)
  have tr: "trace demo_sys = []" by (simp add: demo_sys_def)
  show ?thesis
    using lo_commit_cleanindex_only_on_commit [OF len act, of True]
      lo_commit_cleanindex_only_on_commit [OF len act, of False]
    by (simp add: occ tr MAX_LOBJ_FDS_def)
qed

lemma lo_commit_idle: "fscxt s = None \<Longrightarrow> lo_commit isCommit s = s"
  by (simp add: lo_commit_def)

lemma lo_commit_cookies:
  assumes "lo_invariant s"
  shows "cookies (lo_commit isCommit s) = replicate MAX_LOBJ_FDS None"
proof (cases "fscxt s")
  case None
  with assms show ?thesis by (simp add: lo_commit_idle lo_invariant_def)
next
  case (Some c)
  with assms show ?thesis by (simp add: lo_commit_active lo_invariant_def)
qed

lemma lo_commit_fscxt:
  assumes "length (cookies s) = MAX_LOBJ_FDS"
  shows "fscxt (lo_commit isCommit s) = None"
proof (cases "fscxt s")
  case None
  then show ?thesis by (simp add: lo_commit_idle)
next
  case (Some c)
  with assms show ?thesis by (simp add: lo_commit_active)
qed

lemma newLOfd_empty_table:
  assumes "cookies s = replicate MAX_LOBJ_FDS None"
  shows "newLOfd d s = (0, s\<lparr>cookies := (cookies s)[0 := Some d]\<rparr>)"
proof -
  have "newLOfd d s = (int 0, s\<lparr>cookies := (cookies s)[0 := Some d]\<rparr>)"
    by (rule newLOfd_first_empty) (simp_all add: assms MAX_LOBJ_FDS_def)
  then show ?thesis by simp
qed

lemma lo_close_empty_table:
  assumes "cookies s = replicate MAX_LOBJ_FDS None"
  shows "lo_close fd s =
    (Inl (if fd < 0 \<or> int MAX_LOBJ_FDS \<le> fd then Out_of_range ''lo_close'' fd
          else Invalid_descriptor ''lo_close'' fd), s)"
proof (cases "fd < 0 \<or> int MAX_LOBJ_FDS \<le> fd")
  case True
  then show ?thesis by (auto simp: lo_close_eq)
next
  case False
  then have "nat fd < MAX_LOBJ_FDS" by linarith
  then have "cookies s ! nat fd = None" using assms by simp
  with False show ?thesis by (auto simp: lo_close_eq)
qed

text \<open>
  C1: after \<open>lo_commit\<close>, with either flag, every slot of the table is empty and
  \<^verbatim>\<open>fscxt\<close> is \<^verbatim>\<open>NULL\<close>, so every handle is refused by \<open>lo_close\<close>; the next \<open>lo_open\<close> or
  \<open>lo_creat\<close> creates the arena anew, and the first \<open>lo_open\<close> that the store accepts
  (directly after the hook, or after a \<open>lo_creat\<close>) returns handle 0. When \<^verbatim>\<open>fscxt\<close> is
  \<^verbatim>\<open>NULL\<close> at the call, \<open>lo_commit\<close> changes nothing.
\<close>

theorem lo_commit_invalidates_handles:
  fixes s :: "'d sys" and isCommit :: bool and E :: "'d env"
  assumes inv: "lo_invariant s"
  defines "s' \<equiv> lo_commit isCommit s"
  defines "c \<equiv> AllocSetContextCreate E (trace s')"
  shows "cookies s' = replicate MAX_LOBJ_FDS None \<and> fscxt s' = None
       \<and> lo_close fd s' =
           (Inl (if fd < 0 \<or> int MAX_LOBJ_FDS \<le> fd then Out_of_range ''lo_close'' fd
                 else Invalid_descriptor ''lo_close'' fd), s')
       \<and> (inv_open E (trace s' @ [Ev_AllocSetContextCreate c]) lobjId mode = Some d \<longrightarrow>
            lo_open E lobjId mode s' =
              (0, s'\<lparr>cookies := (cookies s')[0 := Some d], fscxt := Some c,
                     trace := trace s' @ [Ev_AllocSetContextCreate c, Ev_inv_open lobjId mode (Some d)]\<rparr>))
       \<and> fscxt (snd (lo_creat E mode' s')) = Some c
       \<and> (inv_open E (trace (snd (lo_creat E mode' s'))) lobjId mode = Some d \<longrightarrow>
            fst (lo_open E lobjId mode (snd (lo_creat E mode' s'))) = 0)
       \<and> (fscxt s = None \<longrightarrow> s' = s)"
proof -
  have ck: "cookies s' = replicate MAX_LOBJ_FDS None"
    unfolding s'_def using inv by (rule lo_commit_cookies)
  have fs: "fscxt s' = None"
    unfolding s'_def using inv by (simp add: lo_commit_fscxt lo_invariant_def)
  have cl: "lo_close fd s' =
           (Inl (if fd < 0 \<or> int MAX_LOBJ_FDS \<le> fd then Out_of_range ''lo_close'' fd
                 else Invalid_descriptor ''lo_close'' fd), s')"
    using ck by (rule lo_close_empty_table)
  have op: "lo_open E lobjId mode s' =
              (0, s'\<lparr>cookies := (cookies s')[0 := Some d], fscxt := Some c,
                     trace := trace s' @ [Ev_AllocSetContextCreate c, Ev_inv_open lobjId mode (Some d)]\<rparr>)"
    if r: "inv_open E (trace s' @ [Ev_AllocSetContextCreate c]) lobjId mode = Some d"
  proof -
    let ?s3 = "emit (Ev_inv_open lobjId mode (Some d)) (ensure_fscxt E s')"
    have "lo_open E lobjId mode s' = newLOfd d ?s3"
      using r fs by (simp add: lo_open_eq c_def Let_def)
    also have "\<dots> = (0, ?s3\<lparr>cookies := (cookies ?s3)[0 := Some d]\<rparr>)"
      by (rule newLOfd_empty_table) (simp add: ck)
    also have "?s3\<lparr>cookies := (cookies ?s3)[0 := Some d]\<rparr> =
        s'\<lparr>cookies := (cookies s')[0 := Some d], fscxt := Some c,
           trace := trace s' @ [Ev_AllocSetContextCreate c, Ev_inv_open lobjId mode (Some d)]\<rparr>"
      using fs by (simp add: ensure_fscxt_def emit_def c_def Let_def)
    finally show ?thesis .
  qed
  have cr: "fscxt (snd (lo_creat E mode' s')) = Some c"
    using fs by (simp add: lo_creat_eq Let_def c_def split: option.splits)
  have crk: "cookies (snd (lo_creat E mode' s')) = replicate MAX_LOBJ_FDS None"
    using ck by (simp add: lo_creat_eq Let_def split: option.splits)
  have op2: "fst (lo_open E lobjId mode (snd (lo_creat E mode' s'))) = 0"
    if r: "inv_open E (trace (snd (lo_creat E mode' s'))) lobjId mode = Some d"
  proof -
    let ?t = "snd (lo_creat E mode' s')"
    let ?s3 = "emit (Ev_inv_open lobjId mode (Some d)) (ensure_fscxt E ?t)"
    have "lo_open E lobjId mode ?t = newLOfd d ?s3"
      using r cr by (simp add: lo_open_eq Let_def)
    also have "\<dots> = (0, ?s3\<lparr>cookies := (cookies ?s3)[0 := Some d]\<rparr>)"
      by (rule newLOfd_empty_table) (simp add: crk)
    finally show ?thesis by simp
  qed
  have idle: "s' = s" if "fscxt s = None"
    unfolding s'_def using that by (rule lo_commit_idle)
  from ck fs cl op cr op2 idle show ?thesis by blast
qed

theorem lo_commit_invalidates_handles_witness:
  "lo_invariant demo_sys
   \<and> cookies (lo_commit True demo_sys) = replicate 256 None
   \<and> fscxt (lo_commit True demo_sys) = None
   \<and> fst (lo_close 0 (lo_commit True demo_sys)) = Inl (Invalid_descriptor ''lo_close'' 0)
   \<and> fst (lo_open demo_env (ObjectId 5) 0 (lo_commit True demo_sys)) = 0
   \<and> fscxt (snd (lo_open demo_env (ObjectId 5) 0 (lo_commit True demo_sys))) = Some 1
   \<and> fscxt (snd (lo_creat demo_env 0 (lo_commit True demo_sys))) = Some 1
   \<and> fst (lo_open demo_env (ObjectId 5) 0 (snd (lo_creat demo_env 0 (lo_commit True demo_sys)))) = 0
   \<and> lo_commit False idle_sys = idle_sys"
proof -
  have inv1: "lo_invariant demo_sys"
    by (simp add: lo_invariant_def demo_sys_def MAX_LOBJ_FDS_def)
  have inv2: "lo_invariant idle_sys"
    by (simp add: lo_invariant_def idle_sys_def initial_sys_def)
  have idle: "fscxt idle_sys = None" by (simp add: idle_sys_def initial_sys_def)
  have op: "inv_open demo_env tr lobjId mode = Some (length tr)" for tr lobjId mode
    by (simp add: demo_env_def)
  have al: "AllocSetContextCreate demo_env tr = 1" for tr by (simp add: demo_env_def)
  note a = lo_commit_invalidates_handles [OF inv1, where isCommit = True and E = demo_env
      and fd = 0 and lobjId = "ObjectId 5" and mode = 0 and mode' = 0,
      unfolded op al]
  note b = lo_commit_invalidates_handles [OF inv2, where isCommit = False and E = demo_env
      and fd = 0 and lobjId = "ObjectId 5" and mode = 0 and mode' = 0]
  from a [where d = "length (trace (lo_commit True demo_sys) @ [Ev_AllocSetContextCreate 1])"]
    a [where d = "length (trace (snd (lo_creat demo_env 0 (lo_commit True demo_sys))))"]
    b idle inv1
  show ?thesis by (simp add: MAX_LOBJ_FDS_def)
qed

subsection \<open>Validation of a handle\<close>

lemma lo_read_eq:
  "lo_read E fd len s =
     (if fd < 0 \<or> fd \<ge> int MAX_LOBJ_FDS then (Inl (Out_of_range ''lo_read'' fd), s)
      else case cookies s ! nat fd of
        None \<Rightarrow> (Inl (Invalid_descriptor ''lo_read'' fd), s)
      | Some d \<Rightarrow>
          (Inr (inv_read E (trace s) d len),
           emit (Ev_inv_read d len (fst (inv_read E (trace s) d len))) s))"
  by (simp add: lo_read_def Let_def MemoryContextSwitchTo_def emit_def
      split: option.splits prod.splits)

lemma lo_write_eq:
  "lo_write E fd buf len s =
     (if fd < 0 \<or> fd \<ge> int MAX_LOBJ_FDS then (Inl (Out_of_range ''lo_write'' fd), s)
      else case cookies s ! nat fd of
        None \<Rightarrow> (Inl (Invalid_descriptor ''lo_write'' fd), s)
      | Some d \<Rightarrow>
          (Inr (inv_write E (trace s) d buf len),
           emit (Ev_inv_write d buf len (inv_write E (trace s) d buf len)) s))"
  by (simp add: lo_write_def Let_def MemoryContextSwitchTo_def emit_def
      split: option.splits prod.splits)

lemma lo_lseek_eq:
  "lo_lseek E fd offset whence s =
     (if fd < 0 \<or> fd \<ge> int MAX_LOBJ_FDS then (Inl (Out_of_range ''lo_lseek'' fd), s)
      else case cookies s ! nat fd of
        None \<Rightarrow> (Inl (Invalid_descriptor ''lo_lseek'' fd), s)
      | Some d \<Rightarrow>
          (Inr (inv_seek E (trace s) d offset whence),
           emit (Ev_inv_seek d offset whence (inv_seek E (trace s) d offset whence)) s))"
  by (simp add: lo_lseek_def Let_def MemoryContextSwitchTo_def emit_def
      split: option.splits prod.splits)

lemma lo_close_twice:
  assumes len: "length (cookies s) = MAX_LOBJ_FDS" and ok: "fst (lo_close fd s) = Inr 0"
  shows "lo_close fd (snd (lo_close fd s)) = (Inl (Invalid_descriptor ''lo_close'' fd), snd (lo_close fd s))"
proof -
  from ok have rng: "\<not> (fd < 0 \<or> fd \<ge> int MAX_LOBJ_FDS)"
    by (auto simp: lo_close_eq split: if_splits)
  then have n: "nat fd < length (cookies s)" using len by linarith
  from ok rng obtain d where d: "cookies s ! nat fd = Some d"
    by (auto simp: lo_close_eq split: option.splits)
  have s': "snd (lo_close fd s) = deleteLOfd fd (emit (Ev_inv_close d) s)"
    using rng d by (auto simp: lo_close_eq)
  have "cookies (snd (lo_close fd s)) ! nat fd = None"
    using n by (simp add: s' deleteLOfd_def)
  with rng show ?thesis by (auto simp: lo_close_eq [of fd "snd (lo_close fd s)"])
qed

text \<open>
  C4: \<open>lo_close\<close>, \<open>lo_read\<close>, \<open>lo_write\<close>, \<open>lo_lseek\<close> and \<open>lo_tell\<close> refuse a handle
  outside \<open>0 \<le> fd < 256\<close> with the out-of-range error and a handle inside the range
  whose slot is empty with the invalid-descriptor error, leaving the state as it is. A
  second \<open>lo_close\<close> of a handle, after a first one that succeeded, fails with the
  invalid-descriptor error.
\<close>

theorem handle_lookup_errors:
  "(fd < 0 \<or> int MAX_LOBJ_FDS \<le> fd \<longrightarrow>
      lo_close fd s = (Inl (Out_of_range ''lo_close'' fd), s)
    \<and> lo_read E fd len s = (Inl (Out_of_range ''lo_read'' fd), s)
    \<and> lo_write E fd buf len s = (Inl (Out_of_range ''lo_write'' fd), s)
    \<and> lo_lseek E fd offset whence s = (Inl (Out_of_range ''lo_lseek'' fd), s)
    \<and> lo_tell E fd s = (Inl (Out_of_range ''lo_tell'' fd), s))
 \<and> (0 \<le> fd \<and> fd < int MAX_LOBJ_FDS \<and> cookies s ! nat fd = None \<longrightarrow>
      lo_close fd s = (Inl (Invalid_descriptor ''lo_close'' fd), s)
    \<and> lo_read E fd len s = (Inl (Invalid_descriptor ''lo_read'' fd), s)
    \<and> lo_write E fd buf len s = (Inl (Invalid_descriptor ''lo_write'' fd), s)
    \<and> lo_lseek E fd offset whence s = (Inl (Invalid_descriptor ''lo_lseek'' fd), s)
    \<and> lo_tell E fd s = (Inl (Invalid_descriptor ''lo_tell'' fd), s))
 \<and> (length (cookies s) = MAX_LOBJ_FDS \<and> fst (lo_close fd s) = Inr 0 \<longrightarrow>
      lo_close fd (snd (lo_close fd s)) =
        (Inl (Invalid_descriptor ''lo_close'' fd), snd (lo_close fd s)))"
proof (intro conjI impI)
  assume "length (cookies s) = MAX_LOBJ_FDS \<and> fst (lo_close fd s) = Inr 0"
  then show "lo_close fd (snd (lo_close fd s)) =
        (Inl (Invalid_descriptor ''lo_close'' fd), snd (lo_close fd s))"
    by (simp add: lo_close_twice)
qed (auto simp: lo_close_eq lo_read_eq lo_write_eq lo_lseek_eq lo_tell_def)

theorem handle_lookup_errors_witness:
  "lo_close 256 demo_sys = (Inl (Out_of_range ''lo_close'' 256), demo_sys)
   \<and> lo_read demo_env (- 1) 10 demo_sys = (Inl (Out_of_range ''lo_read'' (- 1)), demo_sys)
   \<and> lo_write demo_env 2 ''ab'' 2 demo_sys = (Inl (Invalid_descriptor ''lo_write'' 2), demo_sys)
   \<and> lo_lseek demo_env 255 0 0 demo_sys = (Inl (Invalid_descriptor ''lo_lseek'' 255), demo_sys)
   \<and> lo_tell demo_env 2 demo_sys = (Inl (Invalid_descriptor ''lo_tell'' 2), demo_sys)
   \<and> fst (lo_close 1 demo_sys) = Inr 0
   \<and> fst (lo_close 1 (snd (lo_close 1 demo_sys))) = Inl (Invalid_descriptor ''lo_close'' 1)"
proof -
  have ok: "fst (lo_close 1 demo_sys) = Inr 0"
    by (simp add: lo_close_eq demo_sys_def MAX_LOBJ_FDS_def)
  have len: "length (cookies demo_sys) = MAX_LOBJ_FDS"
    by (simp add: demo_sys_def MAX_LOBJ_FDS_def)
  have e2: "cookies demo_sys ! nat 2 = None" "cookies demo_sys ! nat 255 = None"
    by (simp_all add: demo_sys_def)
  have r: "(256::int) < 0 \<or> int MAX_LOBJ_FDS \<le> 256" "(- 1::int) < 0 \<or> int MAX_LOBJ_FDS \<le> - 1"
    "(0::int) \<le> 2 \<and> 2 < int MAX_LOBJ_FDS" "(0::int) \<le> 255 \<and> 255 < int MAX_LOBJ_FDS"
    by (simp_all add: MAX_LOBJ_FDS_def)
  from handle_lookup_errors [where fd = 256 and s = demo_sys and E = demo_env] r(1)
  have a: "lo_close 256 demo_sys = (Inl (Out_of_range ''lo_close'' 256), demo_sys)" by blast
  from handle_lookup_errors [where fd = "- 1" and s = demo_sys and E = demo_env and len = 10] r(2)
  have b: "lo_read demo_env (- 1) 10 demo_sys = (Inl (Out_of_range ''lo_read'' (- 1)), demo_sys)" by blast
  from handle_lookup_errors [where fd = 2 and s = demo_sys and E = demo_env and buf = "''ab''" and len = 2] r(3) e2(1)
  have c: "lo_write demo_env 2 ''ab'' 2 demo_sys = (Inl (Invalid_descriptor ''lo_write'' 2), demo_sys)"
    and e: "lo_tell demo_env 2 demo_sys = (Inl (Invalid_descriptor ''lo_tell'' 2), demo_sys)" by blast+
  from handle_lookup_errors [where fd = 255 and s = demo_sys and E = demo_env and offset = 0 and whence = 0] r(4) e2(2)
  have d: "lo_lseek demo_env 255 0 0 demo_sys = (Inl (Invalid_descriptor ''lo_lseek'' 255), demo_sys)" by blast
  from handle_lookup_errors [where fd = 1 and s = demo_sys] len ok
  have f: "lo_close 1 (snd (lo_close 1 demo_sys)) =
        (Inl (Invalid_descriptor ''lo_close'' 1), snd (lo_close 1 demo_sys))" by blast
  from a b c d e ok f show ?thesis by simp
qed

subsection \<open>Failures of lo_open\<close>

lemma full_table_active:
  assumes inv: "lo_invariant s" and full: "None \<notin> set (cookies s)"
  shows "fscxt s \<noteq> None"
proof
  assume "fscxt s = None"
  with inv have "cookies s = replicate MAX_LOBJ_FDS None" by (simp add: lo_invariant_def)
  then have "None \<in> set (cookies s)" by (simp add: MAX_LOBJ_FDS_def)
  with full show False by contradiction
qed

lemma newLOfd_result:
  assumes len: "length (cookies s) = MAX_LOBJ_FDS" and emp: "None \<in> set (cookies s)"
  shows "0 \<le> fst (newLOfd d s) \<and> fst (newLOfd d s) < int MAX_LOBJ_FDS"
proof -
  from emp obtain k where k: "k < length (cookies s)" "cookies s ! k = None" "\<forall>j<k. cookies s ! j \<noteq> None"
    by (rule first_empty_slot)
  with len have "newLOfd d s = (int k, s\<lparr>cookies := (cookies s)[k := Some d]\<rparr>)"
    by (intro newLOfd_first_empty) simp_all
  with k len show ?thesis by simp
qed

text \<open>
  C3, as the code has it: \<open>lo_open\<close> returns the same value -1 when the store opens no
  object and when the store opens one but no slot is free; in both cases the table is
  left as it is. A success is told apart from both: it returns a handle in
  \<open>0 \<le> fd < 256\<close>.
\<close>

theorem lo_open_failure_value:
  fixes s :: "'d sys" and E :: "'d env" and lobjId :: Oid and mode :: int
  assumes len: "length (cookies s) = MAX_LOBJ_FDS"
  defines "r \<equiv> inv_open E (trace (ensure_fscxt E s)) lobjId mode"
  shows "(r = None \<longrightarrow> fst (lo_open E lobjId mode s) = - 1)
       \<and> (r \<noteq> None \<and> None \<notin> set (cookies s) \<longrightarrow> fst (lo_open E lobjId mode s) = - 1)
       \<and> (r \<noteq> None \<and> None \<in> set (cookies s) \<longrightarrow>
            0 \<le> fst (lo_open E lobjId mode s) \<and> fst (lo_open E lobjId mode s) < int MAX_LOBJ_FDS)
       \<and> (fst (lo_open E lobjId mode s) = - 1 \<longrightarrow> cookies (snd (lo_open E lobjId mode s)) = cookies s)"
proof -
  let ?s3 = "emit (Ev_inv_open lobjId mode r) (ensure_fscxt E s)"
  have len3: "length (cookies ?s3) = MAX_LOBJ_FDS" using len by simp
  have a: "lo_open E lobjId mode s = (- 1, ?s3)" if "r = None"
    using that by (simp add: lo_open_eq Let_def r_def)
  have b: "lo_open E lobjId mode s = (- 1, ?s3)" if "r \<noteq> None" "None \<notin> set (cookies s)"
  proof -
    from that obtain d where d: "r = Some d" by auto
    have "newLOfd d ?s3 = (- 1, ?s3)" using len3 that(2) by (intro newLOfd_exhausted) simp_all
    with d show ?thesis by (simp add: lo_open_eq Let_def r_def)
  qed
  have c: "0 \<le> fst (lo_open E lobjId mode s) \<and> fst (lo_open E lobjId mode s) < int MAX_LOBJ_FDS"
    if "r \<noteq> None" "None \<in> set (cookies s)"
  proof -
    from that obtain d where d: "r = Some d" by auto
    have "0 \<le> fst (newLOfd d ?s3) \<and> fst (newLOfd d ?s3) < int MAX_LOBJ_FDS"
      using len3 that(2) by (intro newLOfd_result) simp_all
    with d show ?thesis by (simp add: lo_open_eq Let_def r_def)
  qed
  have e: "cookies (snd (lo_open E lobjId mode s)) = cookies s" if "fst (lo_open E lobjId mode s) = - 1"
  proof (cases "r = None \<or> None \<notin> set (cookies s)")
    case True
    then have "lo_open E lobjId mode s = (- 1, ?s3)" using a b by blast
    then show ?thesis by simp
  next
    case False
    with c that show ?thesis by auto
  qed
  from a b c e show ?thesis by simp
qed

theorem lo_open_failure_value_witness:
  "fst (lo_open rejecting_env (ObjectId 5) 0 demo_sys) = - 1
   \<and> fst (lo_open demo_env (ObjectId 5) 0 full_sys) = - 1
   \<and> 0 \<le> fst (lo_open demo_env (ObjectId 5) 0 demo_sys)
   \<and> fst (lo_open demo_env (ObjectId 5) 0 demo_sys) < 256
   \<and> cookies (snd (lo_open demo_env (ObjectId 5) 0 full_sys)) = cookies full_sys"
proof -
  have len1: "length (cookies demo_sys) = MAX_LOBJ_FDS"
    by (simp add: demo_sys_def MAX_LOBJ_FDS_def)
  have len2: "length (cookies full_sys) = MAX_LOBJ_FDS"
    by (simp add: full_sys_def MAX_LOBJ_FDS_def)
  have emp: "None \<in> set (cookies demo_sys)" by (simp add: demo_sys_def)
  have full: "None \<notin> set (cookies full_sys)" by (auto simp: full_sys_def)
  have rej: "inv_open rejecting_env tr lobjId mode = None" for tr lobjId mode
    by (simp add: rejecting_env_def demo_env_def)
  have acc: "inv_open demo_env tr lobjId mode \<noteq> None" for tr lobjId mode
    by (simp add: demo_env_def)
  from lo_open_failure_value [OF len1, of rejecting_env "ObjectId 5" 0]
  have a: "fst (lo_open rejecting_env (ObjectId 5) 0 demo_sys) = - 1" by (simp add: rej)
  from lo_open_failure_value [OF len2, of demo_env "ObjectId 5" 0] full
  have b: "fst (lo_open demo_env (ObjectId 5) 0 full_sys) = - 1"
    and e: "cookies (snd (lo_open demo_env (ObjectId 5) 0 full_sys)) = cookies full_sys"
    by (simp_all add: acc)
  from lo_open_failure_value [OF len1, of demo_env "ObjectId 5" 0] emp
  have c: "0 \<le> fst (lo_open demo_env (ObjectId 5) 0 demo_sys)
     \<and> fst (lo_open demo_env (ObjectId 5) 0 demo_sys) < int MAX_LOBJ_FDS" by (simp add: acc)
  from a b c e show ?thesis by (simp add: MAX_LOBJ_FDS_def)
qed

lemma lo_open_full_table:
  assumes inv: "lo_invariant s" and full: "None \<notin> set (cookies s)"
    and r: "inv_open E (trace s) lobjId mode = Some d"
  shows "lo_open E lobjId mode s = (- 1, emit (Ev_inv_open lobjId mode (Some d)) s)"
proof -
  from inv full have "fscxt s \<noteq> None" by (rule full_table_active)
  then have en: "ensure_fscxt E s = s" by (auto simp: ensure_fscxt_def)
  have "newLOfd d (emit (Ev_inv_open lobjId mode (Some d)) s) = (- 1, emit (Ev_inv_open lobjId mode (Some d)) s)"
    using inv full by (intro newLOfd_exhausted) (simp_all add: lo_invariant_def)
  with r en show ?thesis by (simp add: lo_open_eq Let_def)
qed

lemma lo_open_rejected:
  assumes act: "fscxt s \<noteq> None"
    and r: "inv_open E (trace s) lobjId mode = None"
  shows "lo_open E lobjId mode s = (- 1, emit (Ev_inv_open lobjId mode None) s)"
proof -
  from act have en: "ensure_fscxt E s = s" by (auto simp: ensure_fscxt_def)
  with r show ?thesis by (simp add: lo_open_eq Let_def)
qed

lemma full_sys_facts:
  "lo_invariant full_sys" "None \<notin> set (cookies full_sys)" "trace full_sys = []" "fscxt full_sys \<noteq> None"
  by (auto simp: full_sys_def lo_invariant_def MAX_LOBJ_FDS_def)

text \<open>
  C3 as stated fails: on the full table \<open>full_sys\<close>, with the same arguments,
  \<open>lo_open\<close> returns -1 both with a store that opens no object and with a store that
  opens one, and leaves the same table and the same \<^verbatim>\<open>fscxt\<close>.
\<close>

theorem lo_open_failures_coincide:
  "inv_open rejecting_env (trace full_sys) (ObjectId 5) 0 = None
   \<and> inv_open demo_env (trace full_sys) (ObjectId 5) 0 = Some 0
   \<and> None \<notin> set (cookies full_sys)
   \<and> fst (lo_open rejecting_env (ObjectId 5) 0 full_sys) = - 1
   \<and> fst (lo_open demo_env (ObjectId 5) 0 full_sys) = - 1
   \<and> cookies (snd (lo_open rejecting_env (ObjectId 5) 0 full_sys))
       = cookies (snd (lo_open demo_env (ObjectId 5) 0 full_sys))
   \<and> fscxt (snd (lo_open rejecting_env (ObjectId 5) 0 full_sys))
       = fscxt (snd (lo_open demo_env (ObjectId 5) 0 full_sys))"
proof -
  have rej: "inv_open rejecting_env (trace full_sys) (ObjectId 5) 0 = None"
    by (simp add: rejecting_env_def demo_env_def)
  have acc: "inv_open demo_env (trace full_sys) (ObjectId 5) 0 = Some 0"
    by (simp add: demo_env_def full_sys_facts)
  note a = lo_open_rejected [OF full_sys_facts(4) rej]
  note b = lo_open_full_table [OF full_sys_facts(1,2) acc]
  from rej acc full_sys_facts(2) show ?thesis by (simp add: a b)
qed

text \<open>
  C6, as the code has it: when the store has opened the object and no slot is free,
  \<open>lo_open\<close> returns -1 and the one call it has made is the \<^verbatim>\<open>inv_open\<close>; it makes no
  \<^verbatim>\<open>inv_close\<close> call, and leaves the table, \<^verbatim>\<open>fscxt\<close> and the current memory context as
  they were.
\<close>

theorem lo_open_exhausted_no_close:
  assumes inv: "lo_invariant s" and full: "None \<notin> set (cookies s)"
    and r: "inv_open E (trace s) lobjId mode = Some d"
  shows "fst (lo_open E lobjId mode s) = - 1
       \<and> trace (snd (lo_open E lobjId mode s)) = trace s @ [Ev_inv_open lobjId mode (Some d)]
       \<and> cookies (snd (lo_open E lobjId mode s)) = cookies s
       \<and> fscxt (snd (lo_open E lobjId mode s)) = fscxt s
       \<and> CurrentMemoryContext (snd (lo_open E lobjId mode s)) = CurrentMemoryContext s"
  by (simp add: lo_open_full_table [OF inv full r])

theorem lo_open_exhausted_no_close_witness:
  "fst (lo_open demo_env (ObjectId 5) 0 full_sys) = - 1
   \<and> trace (snd (lo_open demo_env (ObjectId 5) 0 full_sys)) = [Ev_inv_open (ObjectId 5) 0 (Some 0)]
   \<and> cookies (snd (lo_open demo_env (ObjectId 5) 0 full_sys)) = cookies full_sys
   \<and> fscxt (snd (lo_open demo_env (ObjectId 5) 0 full_sys)) = fscxt full_sys
   \<and> CurrentMemoryContext (snd (lo_open demo_env (ObjectId 5) 0 full_sys)) = CurrentMemoryContext full_sys"
proof -
  have acc: "inv_open demo_env (trace full_sys) (ObjectId 5) 0 = Some 0"
    by (simp add: demo_env_def full_sys_facts)
  from lo_open_exhausted_no_close [OF full_sys_facts(1,2) acc] show ?thesis
    by (simp add: full_sys_facts)
qed

text \<open>
  C6 as stated fails: on the full table \<open>full_sys\<close> the store returns descriptor 0,
  \<open>lo_open\<close> returns -1, and no \<^verbatim>\<open>inv_close\<close> of descriptor 0 is among the calls made.
\<close>

theorem lo_open_exhausted_leaks_descriptor:
  "inv_open demo_env (trace full_sys) (ObjectId 5) 0 = Some 0
   \<and> None \<notin> set (cookies full_sys)
   \<and> fst (lo_open demo_env (ObjectId 5) 0 full_sys) = - 1
   \<and> Ev_inv_close 0 \<notin> set (trace (snd (lo_open demo_env (ObjectId 5) 0 full_sys)))"
proof -
  have acc: "inv_open demo_env (trace full_sys) (ObjectId 5) 0 = Some 0"
    by (simp add: demo_env_def full_sys_facts)
  note b = lo_open_full_table [OF full_sys_facts(1,2) acc]
  from acc full_sys_facts(2) show ?thesis by (simp add: b full_sys_facts)
qed

subsection \<open>Creation leaves no handle\<close>

text \<open>
  C7: for every mode, \<open>lo_creat\<close> leaves the table as it is. It calls \<^verbatim>\<open>inv_create\<close> with
  the mode; when the store returns a descriptor, the next and last call is the
  \<^verbatim>\<open>inv_close\<close> of that descriptor and the result is the Oid of the new object; when the
  store returns none, there is no other call and the result is \<^verbatim>\<open>InvalidOid\<close>.
\<close>

theorem lo_creat_leaves_table:
  fixes s :: "'d sys" and E :: "'d env" and mode :: int
  defines "s1 \<equiv> ensure_fscxt E s"
  defines "r \<equiv> inv_create E (trace s1) mode"
  shows "cookies (snd (lo_creat E mode s)) = cookies s
       \<and> trace (snd (lo_creat E mode s)) =
           trace s1 @ Ev_inv_create mode r # (case r of None \<Rightarrow> [] | Some d \<Rightarrow> [Ev_inv_close d])
       \<and> fst (lo_creat E mode s) = (case r of None \<Rightarrow> InvalidOid | Some d \<Rightarrow> heap_relid E d)"
  by (simp add: lo_creat_eq Let_def s1_def r_def split: option.splits)

theorem lo_creat_leaves_table_witness:
  "cookies (snd (lo_creat demo_env 0 demo_sys)) = cookies demo_sys
   \<and> trace (snd (lo_creat demo_env 0 demo_sys)) = [Ev_inv_create 0 (Some 0), Ev_inv_close 0]
   \<and> fst (lo_creat demo_env 0 demo_sys) = ObjectId 0"
proof -
  have s1: "ensure_fscxt demo_env demo_sys = demo_sys"
    by (simp add: ensure_fscxt_def demo_sys_def)
  have tr: "trace demo_sys = []" by (simp add: demo_sys_def)
  have r: "inv_create demo_env [] 0 = Some 0" "heap_relid demo_env 0 = ObjectId 0"
    by (simp_all add: demo_env_def)
  from lo_creat_leaves_table [of demo_env 0 demo_sys] show ?thesis
    by (simp add: s1 tr r)
qed

subsection \<open>The copy loop of an import\<close>

lemma inv_writes_append: "inv_writes (a @ b) = inv_writes a @ inv_writes b"
  by (induction a rule: inv_writes.induct) auto

lemma spec_chunks_Nil [simp]: "spec_chunks n [] = []"
  by (subst spec_chunks.simps) simp







lemma import_loop_0 [simp]: "import_loop 0 E fd d fn s = (None, s)"
  by (simp add: import_loop.simps)

lemma import_loop_Suc:
  "import_loop (Suc fuel) E fd d fn s =
     (let r = FileRead E (trace s) fd BUFSIZE;
          nbytes = fst r; buf = snd r;
          s1 = emit (Ev_FileRead fd BUFSIZE nbytes) s;
          tmp = inv_write E (trace s1) d buf nbytes;
          s2 = emit (Ev_inv_write d buf nbytes tmp) s1
      in if nbytes > 0 then
           (if tmp < nbytes then (Some (Inl (Error_while_reading fn)), s2)
            else import_loop fuel E fd d fn s2)
         else (Some (Inr ()), s1))"
  by (cases "FileRead E (trace s) fd BUFSIZE") (simp add: import_loop.simps Let_def)

lemma import_loop_unfold:
  "0 < fuel \<Longrightarrow>
   import_loop fuel E fd d fn s =
     (let r = FileRead E (trace s) fd BUFSIZE;
          nbytes = fst r; buf = snd r;
          s1 = emit (Ev_FileRead fd BUFSIZE nbytes) s;
          tmp = inv_write E (trace s1) d buf nbytes;
          s2 = emit (Ev_inv_write d buf nbytes tmp) s1
      in if nbytes > 0 then
           (if tmp < nbytes then (Some (Inl (Error_while_reading fn)), s2)
            else import_loop (fuel - 1) E fd d fn s2)
         else (Some (Inr ()), s1))"
  by (cases fuel) (simp_all only: import_loop_Suc diff_Suc_1 less_irrefl)

text \<open>What the loop leaves unchanged.\<close>

lemma import_loop_frame:
  "cookies (snd (import_loop fuel E fd d fn s)) = cookies s
   \<and> fscxt (snd (import_loop fuel E fd d fn s)) = fscxt s
   \<and> CurrentMemoryContext (snd (import_loop fuel E fd d fn s)) = CurrentMemoryContext s"
proof (induction fuel arbitrary: s)
  case 0
  show ?case by simp
next
  case (Suc fuel)
  show ?case by (simp add: import_loop_Suc Let_def Suc.IH)
qed

text \<open>The calls of the loop, for every file layer and store.\<close>

lemma import_loop_copy_log:
  "\<exists>new. trace (snd (import_loop fuel E fd d fn s)) = trace s @ new
     \<and> copy_log E d fd fn (inv_writes new) (fst (import_loop fuel E fd d fn s))"
proof (induction fuel arbitrary: s)
  case 0
  show ?case by (simp add: copy_log_def)
next
  case (Suc fuel)
  define nbytes where "nbytes = fst (FileRead E (trace s) fd BUFSIZE)"
  define buf where "buf = snd (FileRead E (trace s) fd BUFSIZE)"
  define s1 where "s1 = emit (Ev_FileRead fd BUFSIZE nbytes) s"
  define tmp where "tmp = inv_write E (trace s1) d buf nbytes"
  define s2 where "s2 = emit (Ev_inv_write d buf nbytes tmp) s1"
  have t1: "trace s1 = trace s @ [Ev_FileRead fd BUFSIZE nbytes]" by (simp add: s1_def)
  have t2: "trace s2 = trace s @ [Ev_FileRead fd BUFSIZE nbytes, Ev_inv_write d buf nbytes tmp]"
    by (simp add: s2_def s1_def)
  have st: "import_loop (Suc fuel) E fd d fn s =
      (if nbytes > 0 then
         (if tmp < nbytes then (Some (Inl (Error_while_reading fn)), s2)
          else import_loop fuel E fd d fn s2)
       else (Some (Inr ()), s1))"
    by (simp add: import_loop_Suc Let_def nbytes_def buf_def s1_def tmp_def s2_def)
  have rd: "\<exists>tr. FileRead E tr fd BUFSIZE = (nbytes, buf)"
    unfolding nbytes_def buf_def by (intro exI [of _ "trace s"]) simp
  have wr: "\<exists>tr. tmp = inv_write E tr d buf nbytes" unfolding tmp_def by blast
  show ?case
  proof (cases "nbytes > 0")
    case False
    then show ?thesis by (simp add: st t1 copy_log_def)
  next
    case pos: True
    show ?thesis
    proof (cases "tmp < nbytes")
      case True
      have "copy_log E d fd fn [(buf, nbytes, tmp)] (Some (Inl (Error_while_reading fn)))"
        unfolding copy_log_def using pos rd wr by simp
      with pos True st t2 show ?thesis by simp
    next
      case full: False
      from Suc.IH [of s2] obtain new where new:
        "trace (snd (import_loop fuel E fd d fn s2)) = trace s2 @ new"
        "copy_log E d fd fn (inv_writes new) (fst (import_loop fuel E fd d fn s2))"
        by blast
      let ?res = "fst (import_loop fuel E fd d fn s2)"
      let ?ws = "inv_writes new"
      from new(2) have ih1: "\<forall>w\<in>set ?ws. 0 < fst (snd w) \<and> (\<exists>tr. FileRead E tr fd BUFSIZE = (fst (snd w), fst w))"
        and ih2: "\<forall>w\<in>set ?ws. \<exists>tr. snd (snd w) = inv_write E tr d (fst w) (fst (snd w))"
        and ih3: "\<forall>w\<in>set (butlast ?ws). fst (snd w) \<le> snd (snd w)"
        and ih4: "(\<exists>w\<in>set ?ws. snd (snd w) < fst (snd w)) \<longrightarrow> ?res = Some (Inl (Error_while_reading fn))"
        and ih5: "?res = Some (Inr ()) \<longrightarrow> (\<forall>w\<in>set ?ws. fst (snd w) \<le> snd (snd w))"
        unfolding copy_log_def by blast+
      have "copy_log E d fd fn ((buf, nbytes, tmp) # ?ws) ?res"
        unfolding copy_log_def
      proof (intro conjI)
        show "\<forall>w\<in>set ((buf, nbytes, tmp) # ?ws).
            0 < fst (snd w) \<and> (\<exists>tr. FileRead E tr fd BUFSIZE = (fst (snd w), fst w))"
          using ih1 pos rd by simp
        show "\<forall>w\<in>set ((buf, nbytes, tmp) # ?ws).
            \<exists>tr. snd (snd w) = inv_write E tr d (fst w) (fst (snd w))"
          using ih2 wr by simp
        show "\<forall>w\<in>set (butlast ((buf, nbytes, tmp) # ?ws)). fst (snd w) \<le> snd (snd w)"
          using ih3 full by simp
        show "(\<exists>w\<in>set ((buf, nbytes, tmp) # ?ws). snd (snd w) < fst (snd w)) \<longrightarrow>
            ?res = Some (Inl (Error_while_reading fn))"
          using ih4 full by simp
        show "?res = Some (Inr ()) \<longrightarrow> (\<forall>w\<in>set ((buf, nbytes, tmp) # ?ws). fst (snd w) \<le> snd (snd w))"
          using ih5 full by simp
      qed
      with pos full st t2 new(1) show ?thesis by (simp add: inv_writes_append)
    qed
  qed
qed

lemma import_loop_extends:
  "\<exists>tr. trace (snd (import_loop fuel E fd d fn s)) = trace s @ tr"
  using import_loop_copy_log [of fuel E fd d fn s] by blast



lemma lo_import_copy:
  fixes E :: "'d env" and s :: "'d sys" and filename :: string
  defines "fname \<equiv> fnamebuf_of filename"
  defines "fd \<equiv> PathNameOpenFile E (trace s) fname O_RDONLY"
  defines "s1 \<equiv> emit (Ev_PathNameOpenFile fname O_RDONLY fd) s"
  defines "lobj \<equiv> inv_create E (trace s1) (INV_READ E OR INV_WRITE E)"
  defines "s2 \<equiv> emit (Ev_inv_create (INV_READ E OR INV_WRITE E) lobj) s1"
  assumes priv: "\<not> refused E s" and opened: "0 \<le> fd" and created: "lobj = Some d"
    and run: "import_loop fuel E fd d fname s2 = (r, s3)"
  shows "lo_import fuel E filename s =
     (case r of
        None \<Rightarrow> (None, s3)
      | Some (Inl e) \<Rightarrow> (Some (Inl e), s3)
      | Some (Inr u) \<Rightarrow> (Some (Inr (heap_relid E d)), emit (Ev_inv_close d) (emit (Ev_FileClose fd) s3)))"
  using priv opened created run
  unfolding lo_import_def fname_def fd_def s1_def lobj_def s2_def
  by (simp add: Let_def split: option.splits sum.splits)






text \<open>
  A count of -1 ends the loop as a count of 0 does: with a file layer whose second read
  fails, \<open>lo_import\<close> returns the Oid of the new object after one chunk.
\<close>

lemma lo_import_after_failed_read:
  "fst (lo_import 10 read_error_env ''/tmp/f'' idle_sys) = Some (Inr (ObjectId 1))
   \<and> map (\<lambda>w. (length (fst w), snd w)) (inv_writes (trace (snd (lo_import 10 read_error_env ''/tmp/f'' idle_sys))))
       = [(1024, 1024, 1024)]"
  by (simp add: lo_import_def refused_def read_error_env_def demo_env_def idle_sys_def
      initial_sys_def fnamebuf_of_def FNAME_BUFSIZE_def import_loop_unfold BUFSIZE_def Let_def)

subsection \<open>Path names\<close>

lemma fnamebuf_of_eq:
  "fnamebuf_of filename = (if 8191 < length filename then take 8191 filename else filename)"
  by (simp add: fnamebuf_of_def FNAME_BUFSIZE_def Let_def)

lemma fnamebuf_of_idem: "fnamebuf_of (fnamebuf_of filename) = fnamebuf_of filename"
  by (simp add: fnamebuf_of_eq)

lemma export_loop_extends:
  "\<exists>tr. trace (snd (export_loop fuel E d fd fn s)) = trace s @ tr"
proof (induction fuel arbitrary: s)
  case 0
  show ?case by simp
next
  case (Suc fuel)
  obtain nbytes buf where r: "inv_read E (trace s) d (int BUFSIZE) = (nbytes, buf)"
    by (cases "inv_read E (trace s) d (int BUFSIZE)")
  define s1 where "s1 = emit (Ev_inv_read d (int BUFSIZE) nbytes) s"
  define tmp where "tmp = FileWrite E (trace s1) fd buf nbytes"
  define s2 where "s2 = emit (Ev_FileWrite fd buf nbytes tmp) s1"
  from Suc.IH [of s2] obtain tr where tr: "trace (snd (export_loop fuel E d fd fn s2)) = trace s2 @ tr"
    by blast
  have "export_loop (Suc fuel) E d fd fn s =
      (if nbytes > 0 then
         (if tmp < nbytes then (Some (Inl (Error_while_writing fn)), s2)
          else export_loop fuel E d fd fn s2)
       else (Some (Inr ()), s1))"
    by (simp add: r Let_def s1_def tmp_def s2_def)
  then show ?case using tr by (auto simp: s1_def s2_def)
qed

lemma export_loop_frame:
  "cookies (snd (export_loop fuel E d fd fn s)) = cookies s
   \<and> fscxt (snd (export_loop fuel E d fd fn s)) = fscxt s
   \<and> CurrentMemoryContext (snd (export_loop fuel E d fd fn s)) = CurrentMemoryContext s"
proof (induction fuel arbitrary: s)
  case 0
  show ?case by simp
next
  case (Suc fuel)
  show ?case by (simp add: Let_def Suc.IH split: prod.splits)
qed

text \<open>
  C9: the file name that \<open>lo_import\<close> and \<open>lo_export\<close> use is the path argument when
  it holds at most 8191 bytes and its first 8191 bytes when it is longer. An overlong
  path is not refused: each routine does on it exactly what it does on its first 8191
  bytes, and the name handed to \<^verbatim>\<open>PathNameOpenFile\<close> is the truncated one.
\<close>

theorem path_truncated_not_rejected:
  "fnamebuf_of filename = (if 8191 < length filename then take 8191 filename else filename)
   \<and> lo_import fuel E filename s = lo_import fuel E (fnamebuf_of filename) s
   \<and> lo_export fuel E lobjId filename s = lo_export fuel E lobjId (fnamebuf_of filename) s
   \<and> (\<not> refused E s \<longrightarrow>
        (\<exists>fd tr. trace (snd (lo_import fuel E filename s)) =
            trace s @ Ev_PathNameOpenFile (fnamebuf_of filename) O_RDONLY fd # tr))
   \<and> (\<not> refused E s \<and> inv_open E (trace s) lobjId (INV_READ E) = Some d \<longrightarrow>
        (\<exists>oumask fd tr. trace (snd (lo_export fuel E lobjId filename s)) =
            trace s @ [Ev_inv_open lobjId (INV_READ E) (Some d), Ev_umask 18 oumask,
                       Ev_PathNameOpenFile (fnamebuf_of filename) O_CREAT_WRONLY_TRUNC fd] @ tr))"
proof (intro conjI impI)
  show "fnamebuf_of filename = (if 8191 < length filename then take 8191 filename else filename)"
    by (rule fnamebuf_of_eq)
  show "lo_import fuel E filename s = lo_import fuel E (fnamebuf_of filename) s"
    by (simp only: lo_import_def fnamebuf_of_idem)
  show "lo_export fuel E lobjId filename s = lo_export fuel E lobjId (fnamebuf_of filename) s"
    by (simp only: lo_export_def fnamebuf_of_idem)
next
  assume priv: "\<not> refused E s"
  define fname where "fname = fnamebuf_of filename"
  define fd where "fd = PathNameOpenFile E (trace s) fname O_RDONLY"
  define s1 where "s1 = emit (Ev_PathNameOpenFile fname O_RDONLY fd) s"
  define lobj where "lobj = inv_create E (trace s1) (INV_READ E OR INV_WRITE E)"
  define s2 where "s2 = emit (Ev_inv_create (INV_READ E OR INV_WRITE E) lobj) s1"
  have t1: "trace s1 = trace s @ [Ev_PathNameOpenFile fname O_RDONLY fd]" by (simp add: s1_def)
  have t2: "trace s2 = trace s @ [Ev_PathNameOpenFile fname O_RDONLY fd,
      Ev_inv_create (INV_READ E OR INV_WRITE E) lobj]" by (simp add: s2_def t1)
  have "\<exists>tr. trace (snd (lo_import fuel E filename s)) = trace s @ Ev_PathNameOpenFile fname O_RDONLY fd # tr"
  proof (cases "fd < 0")
    case True
    with priv have "lo_import fuel E filename s = (Some (Inl (Cant_open_unix_file ''lo_import'' fname)), s1)"
      by (simp add: lo_import_def Let_def fname_def fd_def s1_def)
    then show ?thesis by (simp add: t1)
  next
    case False
    show ?thesis
    proof (cases lobj)
      case None
      with priv False have "lo_import fuel E filename s = (Some (Inl (Cant_create_inv_object fname)), s2)"
        by (simp add: lo_import_def Let_def fname_def fd_def s1_def lobj_def s2_def)
      then show ?thesis by (simp add: t2)
    next
      case (Some d)
      let ?R = "import_loop fuel E fd d fname s2"
      obtain r s3 where R: "?R = (r, s3)" by (cases ?R)
      from import_loop_extends [of fuel E fd d fname s2] R
      obtain tr where tr: "trace s3 = trace s2 @ tr" by auto
      have "lo_import fuel E filename s =
          (case r of
             None \<Rightarrow> (None, s3)
           | Some (Inl e) \<Rightarrow> (Some (Inl e), s3)
           | Some (Inr u) \<Rightarrow>
               (Some (Inr (heap_relid E d)), emit (Ev_inv_close d) (emit (Ev_FileClose fd) s3)))"
        using lo_import_copy [of E s filename d fuel r s3] priv False Some R
        unfolding fname_def fd_def s1_def lobj_def s2_def by simp
      then have "trace (snd (lo_import fuel E filename s)) =
          trace s3 @ (case r of None \<Rightarrow> [] | Some (Inl e) \<Rightarrow> []
                        | Some (Inr u) \<Rightarrow> [Ev_FileClose fd, Ev_inv_close d])"
        by (simp split: option.splits sum.splits)
      then show ?thesis by (simp add: tr t2)
    qed
  qed
  then show "\<exists>fd tr. trace (snd (lo_import fuel E filename s)) =
            trace s @ Ev_PathNameOpenFile (fnamebuf_of filename) O_RDONLY fd # tr"
    unfolding fname_def by blast
next
  assume "\<not> refused E s \<and> inv_open E (trace s) lobjId (INV_READ E) = Some d"
  then have priv: "\<not> refused E s" and op: "inv_open E (trace s) lobjId (INV_READ E) = Some d"
    by simp_all
  define fname where "fname = fnamebuf_of filename"
  define s1 where "s1 = emit (Ev_inv_open lobjId (INV_READ E) (Some d)) s"
  define oumask where "oumask = umask E (trace s1) 18"
  define s2 where "s2 = emit (Ev_umask 18 oumask) s1"
  define fd where "fd = PathNameOpenFile E (trace s2) fname O_CREAT_WRONLY_TRUNC"
  define s3 where "s3 = emit (Ev_PathNameOpenFile fname O_CREAT_WRONLY_TRUNC fd) s2"
  define s4 where "s4 = emit (Ev_umask oumask (umask E (trace s3) oumask)) s3"
  have t3: "trace s3 = trace s @ [Ev_inv_open lobjId (INV_READ E) (Some d), Ev_umask 18 oumask,
      Ev_PathNameOpenFile fname O_CREAT_WRONLY_TRUNC fd]"
    by (simp add: s3_def s2_def s1_def)
  have t4: "trace s4 = trace s3 @ [Ev_umask oumask (umask E (trace s3) oumask)]"
    by (simp add: s4_def)
  let ?L = "export_loop fuel E d fd fname s4"
  obtain r s5 where L: "?L = (r, s5)" by (cases ?L)
  from export_loop_extends [of fuel E d fd fname s4] L
  obtain tr where tr: "trace s5 = trace s4 @ tr" by auto
  have ex: "lo_export fuel E lobjId filename s =
      (if fd < 0 then (Some (Inl (Cant_open_unix_file ''lo_export'' fname)), s4)
       else (case ?L of
               (None, s5) \<Rightarrow> (None, s5)
             | (Some (Inl e), s5) \<Rightarrow> (Some (Inl e), s5)
             | (Some (Inr u), s5) \<Rightarrow> (Some (Inr 1), emit (Ev_FileClose fd) (emit (Ev_inv_close d) s5))))"
    using priv op
    by (simp add: lo_export_def Let_def fname_def s4_def s3_def fd_def s2_def oumask_def s1_def
        split: prod.splits option.splits sum.splits)
  have "\<exists>tr. trace (snd (lo_export fuel E lobjId filename s)) = trace s3 @ tr"
  proof (cases "fd < 0")
    case True
    then show ?thesis by (simp add: ex t4)
  next
    case False
    show ?thesis
    proof (cases r)
      case None
      with False show ?thesis by (simp add: ex L tr t4)
    next
      case (Some a)
      with False show ?thesis by (cases a) (simp_all add: ex L tr t4)
    qed
  qed
  then show "\<exists>oumask fd tr. trace (snd (lo_export fuel E lobjId filename s)) =
            trace s @ [Ev_inv_open lobjId (INV_READ E) (Some d), Ev_umask 18 oumask,
                       Ev_PathNameOpenFile (fnamebuf_of filename) O_CREAT_WRONLY_TRUNC fd] @ tr"
    unfolding t3 fname_def by (metis append_assoc)
qed

theorem path_truncated_not_rejected_witness:
  "fnamebuf_of long_name = replicate 8191 (CHR ''a'')
   \<and> fnamebuf_of ''/tmp/f'' = ''/tmp/f''
   \<and> lo_import 5 demo_env long_name idle_sys = lo_import 5 demo_env (replicate 8191 (CHR ''a'')) idle_sys
   \<and> lo_export 5 demo_env (ObjectId 7) long_name idle_sys
       = lo_export 5 demo_env (ObjectId 7) (replicate 8191 (CHR ''a'')) idle_sys
   \<and> (\<exists>fd tr. trace (snd (lo_import 5 demo_env long_name idle_sys)) =
         Ev_PathNameOpenFile (replicate 8191 (CHR ''a'')) O_RDONLY fd # tr)
   \<and> (\<exists>oumask fd tr. trace (snd (lo_export 5 demo_env (ObjectId 7) long_name idle_sys)) =
         [Ev_inv_open (ObjectId 7) 262144 (Some 0), Ev_umask 18 oumask,
          Ev_PathNameOpenFile (replicate 8191 (CHR ''a'')) O_CREAT_WRONLY_TRUNC fd] @ tr)"
proof -
  have tr0: "trace idle_sys = []" by (simp add: idle_sys_def initial_sys_def)
  have priv: "\<not> refused demo_env idle_sys" by (simp add: refused_def demo_env_def)
  have op: "inv_open demo_env (trace idle_sys) (ObjectId 7) (INV_READ demo_env) = Some 0"
    by (simp add: demo_env_def tr0)
  have rd: "INV_READ demo_env = 262144" by (simp add: demo_env_def)
  have len: "length long_name = 9000" "take 8191 long_name = replicate 8191 (CHR ''a'')"
    by (simp_all add: long_name_def)
  note T = path_truncated_not_rejected [of long_name 5 demo_env idle_sys "ObjectId 7" 0]
  from T have "fnamebuf_of long_name = (if 8191 < length long_name then take 8191 long_name else long_name)"
    by blast
  then have a: "fnamebuf_of long_name = replicate 8191 (CHR ''a'')" by (simp add: len)
  from T have b: "lo_import 5 demo_env long_name idle_sys = lo_import 5 demo_env (fnamebuf_of long_name) idle_sys"
    and c: "lo_export 5 demo_env (ObjectId 7) long_name idle_sys
       = lo_export 5 demo_env (ObjectId 7) (fnamebuf_of long_name) idle_sys"
    by blast+
  from T priv have d: "\<exists>fd tr. trace (snd (lo_import 5 demo_env long_name idle_sys)) =
         trace idle_sys @ Ev_PathNameOpenFile (fnamebuf_of long_name) O_RDONLY fd # tr"
    by blast
  from T priv op have e: "\<exists>oumask fd tr. trace (snd (lo_export 5 demo_env (ObjectId 7) long_name idle_sys)) =
         trace idle_sys @ [Ev_inv_open (ObjectId 7) (INV_READ demo_env) (Some 0), Ev_umask 18 oumask,
          Ev_PathNameOpenFile (fnamebuf_of long_name) O_CREAT_WRONLY_TRUNC fd] @ tr"
    by blast
  from path_truncated_not_rejected [of "''/tmp/f''" 5 demo_env idle_sys "ObjectId 7" 0]
  have f: "fnamebuf_of ''/tmp/f'' = ''/tmp/f''" by simp
  from a b [unfolded a] c [unfolded a] d [unfolded a tr0] e [unfolded a tr0 rd] f
  show ?thesis by simp
qed

subsection \<open>Reading into a new bytea\<close>

lemma loread_eq:
  "loread E fd len0 s =
     (let len = (if len0 < 0 then 0 else len0);
          s1 = emit (Ev_palloc (int (VARHDRSZ E) + len)) s
      in if fd < 0 \<or> fd \<ge> int MAX_LOBJ_FDS then (Inl (Out_of_range ''lo_read'' fd), s1)
         else case cookies s ! nat fd of
           None \<Rightarrow> (Inl (Invalid_descriptor ''lo_read'' fd), s1)
         | Some d \<Rightarrow>
             (Inr \<lparr>vl_len = fst (inv_read E (trace s1) d len) + int (VARHDRSZ E),
                   vl_dat = snd (inv_read E (trace s1) d len)\<rparr>,
              emit (Ev_inv_read d len (fst (inv_read E (trace s1) d len))) s1))"
  by (simp add: loread_def lo_read_eq Let_def split: option.splits prod.splits)

text \<open>
  C10: for every handle and every negative length, \<open>loread\<close> does what it does for the
  length 0: it asks \<^verbatim>\<open>palloc\<close> for \<^verbatim>\<open>VARHDRSZ\<close> bytes, a size that is not negative, and
  (through \<open>lo_read\<close>, when the handle is valid) asks the store to read 0 bytes; the
  negative length reaches neither call.
\<close>

theorem loread_negative_length:
  assumes neg: "len < 0"
  shows "loread E fd len s = loread E fd 0 s
       \<and> trace (snd (loread E fd len s)) =
           trace s @ Ev_palloc (int (VARHDRSZ E)) #
             (if fd < 0 \<or> int MAX_LOBJ_FDS \<le> fd then []
              else case cookies s ! nat fd of
                     None \<Rightarrow> []
                   | Some d \<Rightarrow>
                       [Ev_inv_read d 0 (fst (inv_read E (trace s @ [Ev_palloc (int (VARHDRSZ E))]) d 0))])
       \<and> (\<forall>n. Ev_palloc n \<in> set (drop (length (trace s)) (trace (snd (loread E fd len s)))) \<longrightarrow> 0 \<le> n)
       \<and> (\<forall>d. 0 \<le> fd \<and> fd < int MAX_LOBJ_FDS \<and> cookies s ! nat fd = Some d \<longrightarrow>
             fst (loread E fd len s) =
               Inr \<lparr>vl_len = fst (inv_read E (trace s @ [Ev_palloc (int (VARHDRSZ E))]) d 0) + int (VARHDRSZ E),
                     vl_dat = snd (inv_read E (trace s @ [Ev_palloc (int (VARHDRSZ E))]) d 0)\<rparr>)"
proof -
  have a: "loread E fd len s = loread E fd 0 s"
    using neg by (simp add: loread_def)
  have b: "trace (snd (loread E fd 0 s)) =
           trace s @ Ev_palloc (int (VARHDRSZ E)) #
             (if fd < 0 \<or> int MAX_LOBJ_FDS \<le> fd then []
              else case cookies s ! nat fd of
                     None \<Rightarrow> []
                   | Some d \<Rightarrow>
                       [Ev_inv_read d 0 (fst (inv_read E (trace s @ [Ev_palloc (int (VARHDRSZ E))]) d 0))])"
    by (simp add: loread_eq Let_def split: option.splits)
  have c: "\<forall>n. Ev_palloc n \<in> set (drop (length (trace s)) (trace (snd (loread E fd 0 s)))) \<longrightarrow> 0 \<le> n"
    unfolding b by (auto split: option.splits if_splits)
  have d: "\<forall>d. 0 \<le> fd \<and> fd < int MAX_LOBJ_FDS \<and> cookies s ! nat fd = Some d \<longrightarrow>
             fst (loread E fd 0 s) =
               Inr \<lparr>vl_len = fst (inv_read E (trace s @ [Ev_palloc (int (VARHDRSZ E))]) d 0) + int (VARHDRSZ E),
                     vl_dat = snd (inv_read E (trace s @ [Ev_palloc (int (VARHDRSZ E))]) d 0)\<rparr>"
    by (simp add: loread_eq Let_def)
  from b c d show ?thesis unfolding a by blast
qed

theorem loread_negative_length_witness:
  "loread demo_env 0 (- 5) demo_sys = loread demo_env 0 0 demo_sys
   \<and> trace (snd (loread demo_env 0 (- 5) demo_sys)) = [Ev_palloc 4, Ev_inv_read 10 0 0]
   \<and> fst (loread demo_env 0 (- 5) demo_sys) = Inr \<lparr>vl_len = 4, vl_dat = []\<rparr>
   \<and> trace (snd (loread demo_env 300 (- 1) demo_sys)) = [Ev_palloc 4]"
proof -
  have neg: "(- 5 :: int) < 0" "(- 1 :: int) < 0" by simp_all
  have tr0: "trace demo_sys = []" by (simp add: demo_sys_def)
  have c0: "cookies demo_sys ! nat 0 = Some 10" by (simp add: demo_sys_def)
  have rng: "(0::int) \<le> 0 \<and> 0 < int MAX_LOBJ_FDS" "\<not> ((0::int) < 0 \<or> int MAX_LOBJ_FDS \<le> 0)"
    "(300::int) < 0 \<or> int MAX_LOBJ_FDS \<le> 300" by (simp_all add: MAX_LOBJ_FDS_def)
  have e: "VARHDRSZ demo_env = 4" "inv_read demo_env tr d n = (0, [])" for tr d n
    by (simp_all add: demo_env_def)
  note T = loread_negative_length [OF neg(1), of demo_env 0 demo_sys]
  from T have a: "loread demo_env 0 (- 5) demo_sys = loread demo_env 0 0 demo_sys" by blast
  from T have "trace (snd (loread demo_env 0 (- 5) demo_sys)) =
      trace demo_sys @ Ev_palloc (int (VARHDRSZ demo_env)) #
        (if (0::int) < 0 \<or> int MAX_LOBJ_FDS \<le> 0 then []
         else case cookies demo_sys ! nat 0 of
                None \<Rightarrow> []
              | Some d \<Rightarrow>
                  [Ev_inv_read d 0 (fst (inv_read demo_env (trace demo_sys @ [Ev_palloc (int (VARHDRSZ demo_env))]) d 0))])"
    by blast
  then have b: "trace (snd (loread demo_env 0 (- 5) demo_sys)) = [Ev_palloc 4, Ev_inv_read 10 0 0]"
    using rng(2) c0 by (simp add: tr0 e)
  from T rng(1) c0 have "fst (loread demo_env 0 (- 5) demo_sys) =
      Inr \<lparr>vl_len = fst (inv_read demo_env (trace demo_sys @ [Ev_palloc (int (VARHDRSZ demo_env))]) 10 0)
                  + int (VARHDRSZ demo_env),
            vl_dat = snd (inv_read demo_env (trace demo_sys @ [Ev_palloc (int (VARHDRSZ demo_env))]) 10 0)\<rparr>"
    by blast
  then have c: "fst (loread demo_env 0 (- 5) demo_sys) = Inr \<lparr>vl_len = 4, vl_dat = []\<rparr>"
    by (simp add: e)
  note U = loread_negative_length [OF neg(2), of demo_env 300 demo_sys]
  from U have "trace (snd (loread demo_env 300 (- 1) demo_sys)) =
      trace demo_sys @ Ev_palloc (int (VARHDRSZ demo_env)) #
        (if (300::int) < 0 \<or> int MAX_LOBJ_FDS \<le> 300 then []
         else case cookies demo_sys ! nat 300 of
                None \<Rightarrow> []
              | Some d \<Rightarrow>
                  [Ev_inv_read d 0 (fst (inv_read demo_env (trace demo_sys @ [Ev_palloc (int (VARHDRSZ demo_env))]) d 0))])"
    by blast
  then have d: "trace (snd (loread demo_env 300 (- 1) demo_sys)) = [Ev_palloc 4]"
    using rng(3) by (simp add: tr0 e)
  from a b c d show ?thesis by blast
qed

subsection \<open>The invariant is kept by every routine\<close>

lemma lo_invariant_frame:
  "cookies t = cookies s \<Longrightarrow> fscxt t = fscxt s \<Longrightarrow> lo_invariant s \<Longrightarrow> lo_invariant t"
  by (simp add: lo_invariant_def)

lemma lo_invariant_initial: "lo_invariant (initial_sys cur)"
  by (simp add: lo_invariant_def initial_sys_def)

lemma Assert_fscxt_holds:
  assumes inv: "lo_invariant s" and rng: "0 \<le> fd" "fd < int MAX_LOBJ_FDS"
    and occ: "cookies s ! nat fd = Some d"
  shows "fscxt s \<noteq> None"
proof
  assume "fscxt s = None"
  with inv have "cookies s = replicate MAX_LOBJ_FDS None" by (simp add: lo_invariant_def)
  moreover from rng have "nat fd < MAX_LOBJ_FDS" by linarith
  ultimately have "cookies s ! nat fd = None" by simp
  with occ show False by simp
qed

lemma newLOfd_length:
  assumes "length (cookies s) = MAX_LOBJ_FDS"
  shows "length (cookies (snd (newLOfd d s))) = MAX_LOBJ_FDS"
proof (cases "None \<in> set (cookies s)")
  case True
  then obtain k where k: "k < length (cookies s)" "cookies s ! k = None" "\<forall>j<k. cookies s ! j \<noteq> None"
    by (rule first_empty_slot)
  with assms have "newLOfd d s = (int k, s\<lparr>cookies := (cookies s)[k := Some d]\<rparr>)"
    by (intro newLOfd_first_empty) simp_all
  with assms show ?thesis by simp
next
  case False
  with assms have "newLOfd d s = (- 1, s)" by (rule newLOfd_exhausted)
  with assms show ?thesis by simp
qed

lemma newLOfd_fscxt: "fscxt (snd (newLOfd d s)) = fscxt s"
  by (simp add: newLOfd_def split: prod.splits)

lemma lo_invariant_lo_open:
  assumes "lo_invariant s"
  shows "lo_invariant (snd (lo_open E lobjId mode s))"
proof -
  let ?s1 = "ensure_fscxt E s"
  let ?r = "inv_open E (trace ?s1) lobjId mode"
  let ?s3 = "emit (Ev_inv_open lobjId mode ?r) ?s1"
  have len: "length (cookies ?s3) = MAX_LOBJ_FDS" using assms by (simp add: lo_invariant_def)
  have act: "fscxt ?s3 \<noteq> None" by simp
  show ?thesis
  proof (cases ?r)
    case None
    then have "snd (lo_open E lobjId mode s) = ?s3" by (simp add: lo_open_eq Let_def)
    with len act show ?thesis by (simp add: lo_invariant_def)
  next
    case (Some d)
    then have "snd (lo_open E lobjId mode s) = snd (newLOfd d ?s3)" by (simp add: lo_open_eq Let_def)
    with newLOfd_length [OF len, of d] act show ?thesis
      by (simp add: lo_invariant_def newLOfd_fscxt)
  qed
qed

lemma replicate_update_same [simp]: "(replicate n x)[i := x] = replicate n x"
  by (cases "i < n") (simp_all add: list_eq_iff_nth_eq nth_list_update)

lemma lo_invariant_lo_close:
  assumes "lo_invariant s"
  shows "lo_invariant (snd (lo_close fd s))"
  using assms
  by (auto simp: lo_close_eq lo_invariant_def deleteLOfd_def split: option.splits)

lemma lo_invariant_lo_read: "lo_invariant s \<Longrightarrow> lo_invariant (snd (lo_read E fd len s))"
  by (auto simp: lo_read_eq lo_invariant_def split: option.splits)

lemma lo_invariant_lo_write: "lo_invariant s \<Longrightarrow> lo_invariant (snd (lo_write E fd buf len s))"
  by (auto simp: lo_write_eq lo_invariant_def split: option.splits)

lemma lo_invariant_lo_lseek: "lo_invariant s \<Longrightarrow> lo_invariant (snd (lo_lseek E fd offset whence s))"
  by (auto simp: lo_lseek_eq lo_invariant_def split: option.splits)

lemma lo_invariant_lo_tell: "lo_invariant s \<Longrightarrow> lo_invariant (snd (lo_tell E fd s))"
  by (auto simp: lo_tell_def lo_invariant_def Let_def split: option.splits)

lemma lo_invariant_lo_creat: "lo_invariant s \<Longrightarrow> lo_invariant (snd (lo_creat E mode s))"
  by (auto simp: lo_creat_eq lo_invariant_def Let_def split: option.splits)

lemma lo_invariant_lo_unlink: "lo_invariant s \<Longrightarrow> lo_invariant (snd (lo_unlink E lobjId s))"
  by (simp add: lo_unlink_def lo_invariant_def Let_def)

lemma lo_invariant_loread: "lo_invariant s \<Longrightarrow> lo_invariant (snd (loread E fd len s))"
  by (auto simp: loread_eq lo_invariant_def Let_def split: option.splits)

lemma lo_invariant_lowrite: "lo_invariant s \<Longrightarrow> lo_invariant (snd (lowrite E fd wbuf s))"
  by (simp add: lowrite_def Let_def lo_invariant_lo_write)

lemma lo_invariant_lo_commit: "lo_invariant s \<Longrightarrow> lo_invariant (lo_commit isCommit s)"
  by (simp add: lo_invariant_def lo_commit_fscxt lo_commit_cookies)

lemma import_loop_frame_at:
  assumes "import_loop fuel E fd d fn t = (r, s3)"
  shows "cookies s3 = cookies t \<and> fscxt s3 = fscxt t"
  using import_loop_frame [of fuel E fd d fn t] assms by simp

lemma lo_import_frame:
  "cookies (snd (lo_import fuel E filename s)) = cookies s
   \<and> fscxt (snd (lo_import fuel E filename s)) = fscxt s"
  by (auto simp: lo_import_def Let_def dest!: import_loop_frame_at
      split: option.splits prod.splits sum.splits)

lemma lo_invariant_lo_import:
  "lo_invariant s \<Longrightarrow> lo_invariant (snd (lo_import fuel E filename s))"
  using lo_import_frame [of fuel E filename s] by (auto intro: lo_invariant_frame)

lemma export_loop_frame_at:
  assumes "export_loop fuel E d fd fn t = (r, s5)"
  shows "cookies s5 = cookies t \<and> fscxt s5 = fscxt t"
  using export_loop_frame [of fuel E d fd fn t] assms by simp

lemma lo_export_frame:
  "cookies (snd (lo_export fuel E lobjId filename s)) = cookies s
   \<and> fscxt (snd (lo_export fuel E lobjId filename s)) = fscxt s"
  by (auto simp: lo_export_def Let_def dest!: export_loop_frame_at
      split: option.splits prod.splits sum.splits)

lemma lo_invariant_lo_export:
  "lo_invariant s \<Longrightarrow> lo_invariant (snd (lo_export fuel E lobjId filename s))"
  using lo_export_frame [of fuel E lobjId filename s] by (auto intro: lo_invariant_frame)

subsection \<open>The loop of an export ends when the store reports end-of-object\<close>

lemma export_loop_ends:
  assumes "fst (inv_read E (trace s) d (int BUFSIZE)) \<le> 0"
  shows "export_loop (Suc fuel) E d fd fn s =
     (Some (Inr ()), emit (Ev_inv_read d (int BUFSIZE) (fst (inv_read E (trace s) d (int BUFSIZE)))) s)"
  using assms by (cases "inv_read E (trace s) d (int BUFSIZE)") (simp add: Let_def)

lemma export_loop_more_fuel:
  "fst (export_loop fuel E d fd fn s) \<noteq> None \<Longrightarrow>
   export_loop (fuel + k) E d fd fn s = export_loop fuel E d fd fn s"
proof (induction fuel arbitrary: s)
  case 0
  then show ?case by simp
next
  case (Suc fuel)
  obtain nbytes buf where r: "inv_read E (trace s) d (int BUFSIZE) = (nbytes, buf)"
    by (cases "inv_read E (trace s) d (int BUFSIZE)")
  define s1 where "s1 = emit (Ev_inv_read d (int BUFSIZE) nbytes) s"
  define tmp where "tmp = FileWrite E (trace s1) fd buf nbytes"
  define s2 where "s2 = emit (Ev_FileWrite fd buf nbytes tmp) s1"
  have st: "export_loop (Suc n) E d fd fn s =
      (if nbytes > 0 then
         (if tmp < nbytes then (Some (Inl (Error_while_writing fn)), s2)
          else export_loop n E d fd fn s2)
       else (Some (Inr ()), s1))" for n
    by (simp add: r Let_def s1_def tmp_def s2_def)
  show ?case
  proof (cases "nbytes > 0 \<and> \<not> tmp < nbytes")
    case True
    with Suc.prems st [of fuel] have "fst (export_loop fuel E d fd fn s2) \<noteq> None" by simp
    then have "export_loop (fuel + k) E d fd fn s2 = export_loop fuel E d fd fn s2"
      by (rule Suc.IH)
    with True st [of fuel] st [of "fuel + k"] show ?thesis by simp
  next
    case False
    with st [of fuel] st [of "fuel + k"] show ?thesis by auto
  qed
qed

lemma lo_export_returns:
  assumes priv: "\<not> refused demo_env s"
  shows "fst (lo_export (Suc fuel) demo_env lobjId filename s) = Some (Inr 1)"
  using priv
  by (simp add: lo_export_def demo_env_def Let_def refused_def)

subsection \<open>The allocation context is restored\<close>

lemma newLOfd_CurrentMemoryContext:
  "CurrentMemoryContext (snd (newLOfd d s)) = CurrentMemoryContext s"
  by (simp add: newLOfd_def split: prod.splits)

lemma context_restored:
  "CurrentMemoryContext (snd (lo_open E lobjId mode s)) = CurrentMemoryContext s"
  "CurrentMemoryContext (snd (lo_close fd s)) = CurrentMemoryContext s"
  "CurrentMemoryContext (snd (lo_read E fd len s)) = CurrentMemoryContext s"
  "CurrentMemoryContext (snd (lo_write E fd buf len s)) = CurrentMemoryContext s"
  "CurrentMemoryContext (snd (lo_lseek E fd offset whence s)) = CurrentMemoryContext s"
  "CurrentMemoryContext (snd (lo_creat E mode s)) = CurrentMemoryContext s"
  "CurrentMemoryContext (lo_commit isCommit s) = CurrentMemoryContext s"
proof -
  show "CurrentMemoryContext (snd (lo_open E lobjId mode s)) = CurrentMemoryContext s"
    by (simp add: lo_open_eq Let_def newLOfd_CurrentMemoryContext split: option.splits)
  show "CurrentMemoryContext (snd (lo_close fd s)) = CurrentMemoryContext s"
    by (simp add: lo_close_eq deleteLOfd_def split: option.splits)
  show "CurrentMemoryContext (snd (lo_read E fd len s)) = CurrentMemoryContext s"
    by (simp add: lo_read_eq split: option.splits)
  show "CurrentMemoryContext (snd (lo_write E fd buf len s)) = CurrentMemoryContext s"
    by (simp add: lo_write_eq split: option.splits)
  show "CurrentMemoryContext (snd (lo_lseek E fd offset whence s)) = CurrentMemoryContext s"
    by (simp add: lo_lseek_eq split: option.splits)
  show "CurrentMemoryContext (snd (lo_creat E mode s)) = CurrentMemoryContext s"
    by (simp add: lo_creat_eq Let_def split: option.splits)
  show "CurrentMemoryContext (lo_commit isCommit s) = CurrentMemoryContext s"
    by (simp add: lo_commit_def MemoryContextSwitchTo_def lo_commit_loop_eq
        split: option.splits prod.splits)
qed

end
